theory Spec2Isabelle
  imports Main "HOL-Library.Sublist"
begin

section \<open>Corpus model\<close>

text \<open>
  The notebooks work on SQuAD-style JSON: a corpus holds articles, an article holds
  paragraphs, a paragraph holds a context string and question-answer pairs, and a pair
  holds a list of answers. Python strings are modelled as \<open>string\<close>, one list element per
  Python character; JSON integers are \<open>int\<close>.

  A question-answer dictionary is modelled with the four keys the specification names;
  any further key (SQuAD 2.0 has \<open>plausible_answers\<close>) is carried along by
  \<open>qa.copy()\<close> exactly as \<open>id\<close> and \<open>is_impossible\<close> are.

  The tree is parametrised by the representation \<open>'a\<close> of an answer: \<open>answer\<close> itself
  for a JSON value (file contents), an address into the store for the objects that
  \<open>json.load\<close> builds in memory. Only answer dictionaries are ever assigned to after
  loading, so only they live in the store; every other dictionary and list is built once
  and read.
\<close>

datatype error =
    IndexError   \<comment> \<open>\<open>random.choice\<close> on an empty sequence\<close>
  | ValueError   \<comment> \<open>\<open>str.index\<close> when the substring is not found\<close>

record answer =
  answer_text :: string      \<comment> \<open>key \<open>'text'\<close>\<close>
  answer_start :: int        \<comment> \<open>key \<open>'answer_start'\<close>\<close>

record 'a qa =
  question :: string
  qa_id :: "string option"          \<comment> \<open>key \<open>'id'\<close>, optional\<close>
  is_impossible :: "bool option"    \<comment> \<open>key \<open>'is_impossible'\<close>, optional\<close>
  answers :: "'a list"

record 'a squad_paragraph =
  par_context :: string             \<comment> \<open>key \<open>'context'\<close>\<close>
  qas :: "'a qa list"

record 'a article =
  title :: string
  paragraphs :: "'a squad_paragraph list"

record 'a squad =
  version :: string
  data :: "'a article list"

type_synonym addr = nat
type_synonym heap = "answer list"

section \<open>Python built-ins used by the notebooks\<close>

text \<open>\<open>s.find(sub)\<close>: the lowest index at which \<open>sub\<close> occurs in \<open>s\<close>, if any.\<close>

fun str_find :: "string \<Rightarrow> string \<Rightarrow> nat option" where
  "str_find [] sub = (if sub = [] then Some 0 else None)"
| "str_find (c # cs) sub =
     (if prefix sub (c # cs) then Some 0 else map_option Suc (str_find cs sub))"

text \<open>\<open>s.index(sub)\<close>: as \<open>find\<close>, but raises \<open>ValueError\<close> when there is no occurrence.\<close>

definition str_index :: "string \<Rightarrow> string \<Rightarrow> error + nat" where
  "str_index s sub = (case str_find s sub of None \<Rightarrow> Inl ValueError | Some i \<Rightarrow> Inr i)"

text \<open>\<open>sub in s\<close> on strings.\<close>

definition str_contains :: "string \<Rightarrow> string \<Rightarrow> bool" where
  "str_contains s sub = (str_find s sub \<noteq> None)"

text \<open>
  \<open>s[i:j]\<close> with Python's treatment of the bounds: a negative bound counts from the end,
  and every bound is clamped to the string.
\<close>

definition py_slice :: "string \<Rightarrow> int \<Rightarrow> int \<Rightarrow> string" where
  "py_slice s i j =
     (let n = int (length s);
          a = (if i < 0 then max 0 (i + n) else min i n);
          b = (if j < 0 then max 0 (j + n) else min j n)
      in take (nat (b - a)) (drop (nat a) s))"

text \<open>\<open>sep.join(xs)\<close>.\<close>

fun str_join :: "string \<Rightarrow> string list \<Rightarrow> string" where
  "str_join sep [] = []"
| "str_join sep [x] = x"
| "str_join sep (x # y # ys) = x @ sep @ str_join sep (y # ys)"

text \<open>
  The module-level random generator is an explicit state: an infinite sequence of raw
  draws, of which \<open>random.choice\<close> consumes the first and reduces it to an index below
  the length of the sequence. On an empty sequence \<open>random.choice\<close> raises \<open>IndexError\<close>.
\<close>

type_synonym rng = "nat \<Rightarrow> nat"

definition rng_tail :: "rng \<Rightarrow> rng" where
  "rng_tail g = (\<lambda>i. g (Suc i))"

definition random_choice :: "'a list \<Rightarrow> rng \<Rightarrow> error + ('a \<times> rng)" where
  "random_choice seq g =
     (if seq = [] then Inl IndexError
      else Inr (seq ! (g 0 mod length seq), rng_tail g))"

section \<open>Loading and dumping JSON\<close>

text \<open>
  \<open>json.load\<close> builds a fresh object for every JSON value, so no two places of the loaded
  tree hold the same answer dictionary. The store is a list of answer dictionaries, an
  address is an index into it, and allocation appends.
\<close>

definition load_qa :: "answer qa \<Rightarrow> heap \<Rightarrow> addr qa \<times> heap" where
  "load_qa q h =
     (\<lparr>question = question q, qa_id = qa_id q, is_impossible = is_impossible q,
       answers = [length h ..< length h + length (answers q)]\<rparr>,
      h @ answers q)"

fun load_qas :: "answer qa list \<Rightarrow> heap \<Rightarrow> addr qa list \<times> heap" where
  "load_qas [] h = ([], h)"
| "load_qas (q # qs) h =
     (case load_qa q h of (m, h1) \<Rightarrow>
        (case load_qas qs h1 of (ms, h2) \<Rightarrow> (m # ms, h2)))"

definition load_paragraph :: "answer squad_paragraph \<Rightarrow> heap \<Rightarrow> addr squad_paragraph \<times> heap" where
  "load_paragraph p h =
     (case load_qas (qas p) h of (ms, h1) \<Rightarrow> (\<lparr>par_context = par_context p, qas = ms\<rparr>, h1))"

fun load_paragraphs :: "answer squad_paragraph list \<Rightarrow> heap \<Rightarrow> addr squad_paragraph list \<times> heap" where
  "load_paragraphs [] h = ([], h)"
| "load_paragraphs (p # ps) h =
     (case load_paragraph p h of (m, h1) \<Rightarrow>
        (case load_paragraphs ps h1 of (ms, h2) \<Rightarrow> (m # ms, h2)))"

definition load_article :: "answer article \<Rightarrow> heap \<Rightarrow> addr article \<times> heap" where
  "load_article a h =
     (case load_paragraphs (paragraphs a) h of (ms, h1) \<Rightarrow> (\<lparr>title = title a, paragraphs = ms\<rparr>, h1))"

fun load_articles :: "answer article list \<Rightarrow> heap \<Rightarrow> addr article list \<times> heap" where
  "load_articles [] h = ([], h)"
| "load_articles (a # as) h =
     (case load_article a h of (m, h1) \<Rightarrow>
        (case load_articles as h1 of (ms, h2) \<Rightarrow> (m # ms, h2)))"

definition json_load :: "answer squad \<Rightarrow> addr squad \<times> heap" where
  "json_load c =
     (case load_articles (data c) [] of (ms, h) \<Rightarrow> (\<lparr>version = version c, data = ms\<rparr>, h))"

text \<open>\<open>json.dump\<close> writes the value an object has at the time of the call: addresses are
  resolved in the store as it is then.\<close>

definition dump_qa :: "heap \<Rightarrow> addr qa \<Rightarrow> answer qa" where
  "dump_qa h q =
     \<lparr>question = question q, qa_id = qa_id q, is_impossible = is_impossible q,
      answers = map (\<lambda>a. h ! a) (answers q)\<rparr>"

definition dump_paragraph :: "heap \<Rightarrow> addr squad_paragraph \<Rightarrow> answer squad_paragraph" where
  "dump_paragraph h p = \<lparr>par_context = par_context p, qas = map (dump_qa h) (qas p)\<rparr>"

definition dump_article :: "heap \<Rightarrow> addr article \<Rightarrow> answer article" where
  "dump_article h a = \<lparr>title = title a, paragraphs = map (dump_paragraph h) (paragraphs a)\<rparr>"

definition json_dump :: "heap \<Rightarrow> addr squad \<Rightarrow> answer squad" where
  "json_dump h c = \<lparr>version = version c, data = map (dump_article h) (data c)\<rparr>"

section \<open>The loops shared by both generation notebooks\<close>

text \<open>
  The body of \<open>for qa in paragraph['qas']\<close>. \<open>qa.copy()\<close> is a shallow copy: the new
  dictionary holds the same answers list, hence the same answer dictionaries, as the
  original, so \<open>new_qa\<close> carries the addresses of \<open>qa\<close> and the assignment to
  \<open>new_qa['answers'][0]['answer_start']\<close> writes to the cell that \<open>qa\<close> refers to.
\<close>

definition qa_step :: "string \<Rightarrow> addr qa \<Rightarrow> heap \<Rightarrow> error + (addr qa \<times> heap)" where
  "qa_step adv_context qa h =
     (let new_qa = qa in
      if answers new_qa \<noteq> [] then
        (let a = hd (answers new_qa);
             answer = answer_text (h ! a)
         in case str_index adv_context answer of
              Inl e \<Rightarrow> Inl e
            | Inr i \<Rightarrow> Inr (new_qa, h[a := (h ! a)\<lparr>answer_start := int i\<rparr>]))
      else Inr (new_qa, h))"

fun qas_loop :: "string \<Rightarrow> addr qa list \<Rightarrow> heap \<Rightarrow> error + (addr qa list \<times> heap)" where
  "qas_loop adv_context [] h = Inr ([], h)"
| "qas_loop adv_context (qa # rest) h =
     (case qa_step adv_context qa h of
        Inl e \<Rightarrow> Inl e
      | Inr (new_qa, h1) \<Rightarrow>
          (case qas_loop adv_context rest h1 of
             Inl e \<Rightarrow> Inl e
           | Inr (new_qas, h2) \<Rightarrow> Inr (new_qa # new_qas, h2)))"

text \<open>
  The two outer loops are the same in both notebooks; they differ in how the paragraph's
  adversarial context is produced, which is the parameter \<open>step\<close>. The state threaded
  through is the store and the random generator.
\<close>

type_synonym pstate = "heap \<times> rng"
type_synonym pstep = "addr squad_paragraph \<Rightarrow> pstate \<Rightarrow> error + (addr squad_paragraph \<times> pstate)"

fun paragraphs_loop :: "pstep \<Rightarrow> addr squad_paragraph list \<Rightarrow> pstate \<Rightarrow>
    error + (addr squad_paragraph list \<times> pstate)" where
  "paragraphs_loop step [] s = Inr ([], s)"
| "paragraphs_loop step (paragraph # rest) s =
     (case step paragraph s of
        Inl e \<Rightarrow> Inl e
      | Inr (new_paragraph, s1) \<Rightarrow>
          (case paragraphs_loop step rest s1 of
             Inl e \<Rightarrow> Inl e
           | Inr (new_paragraphs, s2) \<Rightarrow> Inr (new_paragraph # new_paragraphs, s2)))"

fun articles_loop :: "pstep \<Rightarrow> addr article list \<Rightarrow> pstate \<Rightarrow>
    error + (addr article list \<times> pstate)" where
  "articles_loop step [] s = Inr ([], s)"
| "articles_loop step (article # rest) s =
     (case paragraphs_loop step (paragraphs article) s of
        Inl e \<Rightarrow> Inl e
      | Inr (new_paragraphs, s1) \<Rightarrow>
          (case articles_loop step rest s1 of
             Inl e \<Rightarrow> Inl e
           | Inr (new_articles, s2) \<Rightarrow>
               Inr (\<lparr>title = title article, paragraphs = new_paragraphs\<rparr> # new_articles, s2)))"

text \<open>
  What a run leaves behind: the value written to the output file, and the value of the
  local variable \<open>data\<close> (the loaded input) when the function returns.
\<close>

record run_result =
  output_file :: "answer squad"
  data_after :: "answer squad"

definition process_squad_file :: "pstep \<Rightarrow> answer squad \<Rightarrow> rng \<Rightarrow> error + run_result" where
  "process_squad_file step input g =
     (case json_load input of (data_mem, h) \<Rightarrow>
        (case articles_loop step (data data_mem) (h, g) of
           Inl e \<Rightarrow> Inl e
         | Inr (new_articles, (h', g')) \<Rightarrow>
             Inr \<lparr>output_file = json_dump h' \<lparr>version = ''v2.0'', data = new_articles\<rparr>,
                  data_after = json_dump h' data_mem\<rparr>))"

section \<open>AddSent\<close>

text \<open>A spaCy token: its text and its coarse part-of-speech tag (\<open>token.pos_\<close>). The tagger
  \<open>nlp\<close> is an external collaborator and a parameter of the model.\<close>

record token =
  token_text :: string
  pos_tag :: string

type_synonym tagger = "string \<Rightarrow> token list"

definition key_words_of :: "token list \<Rightarrow> string list" where
  "key_words_of doc =
     (let key_words = [token_text t. t \<leftarrow> doc, pos_tag t \<in> set [''NOUN'', ''VERB'', ''ADJ'']]
      in if key_words = [] then [token_text t. t \<leftarrow> doc, pos_tag t \<noteq> ''PUNCT'']
         else key_words)"

definition generate_adversarial_sentence ::
    "tagger \<Rightarrow> addr qa list \<Rightarrow> heap \<Rightarrow> rng \<Rightarrow> error + (string \<times> rng)" where
  "generate_adversarial_sentence nlp qas_list h g =
     (case random_choice qas_list g of
        Inl e \<Rightarrow> Inl e
      | Inr (qa, g1) \<Rightarrow>
          (let question = question qa;
               answer = (if answers qa \<noteq> [] then answer_text (h ! hd (answers qa)) else []);
               doc = nlp question;
               key_words = key_words_of doc
           in if answer \<noteq> []
              then (case random_choice key_words g1 of
                      Inl e \<Rightarrow> Inl e
                    | Inr (key_word, g2) \<Rightarrow>
                        Inr (''However, '' @ key_word @ '' is not related to '' @ answer @ ''.'', g2))
              else (case random_choice key_words g1 of
                      Inl e \<Rightarrow> Inl e
                    | Inr (key_word, g2) \<Rightarrow>
                        Inr (''However, '' @ key_word @ '' is not relevant to this context.'', g2))))"

definition addsent_step :: "tagger \<Rightarrow> pstep" where
  "addsent_step nlp paragraph s =
     (case s of (h, g) \<Rightarrow>
        (let context = par_context paragraph in
         case generate_adversarial_sentence nlp (qas paragraph) h g of
           Inl e \<Rightarrow> Inl e
         | Inr (adv_sentence, g1) \<Rightarrow>
             (let adv_context = context @ '' '' @ adv_sentence in
              case qas_loop adv_context (qas paragraph) h of
                Inl e \<Rightarrow> Inl e
              | Inr (new_qas, h1) \<Rightarrow>
                  Inr (\<lparr>par_context = adv_context, qas = new_qas\<rparr>, (h1, g1)))))"

definition process_squad_file_addsent :: "tagger \<Rightarrow> answer squad \<Rightarrow> rng \<Rightarrow> error + run_result" where
  "process_squad_file_addsent nlp = process_squad_file (addsent_step nlp)"

section \<open>AddAny\<close>

definition arbitrary_sentences :: "string list" where
  "arbitrary_sentences =
    [
     ''The weather was unusually warm that day.'',
     ''A new study shows that coffee might be good for your health.'',
     ''Scientists have discovered a new species of butterfly.'',
     ''The local museum is hosting a special exhibition next month.'',
     ''Recent advancements in technology have revolutionized communication.'',
     ''A group of researchers published a groundbreaking paper last week.'',
     ''The city council approved a new urban development plan.'',
     ''Experts predict significant changes in the job market over the next decade.'',
     ''A rare astronomical event will be visible in the night sky this weekend.'',
     ''The national park announced the birth of an endangered species.'',
     ''The restaurant introduced a new menu featuring exotic dishes.'',
     ''A famous actor announced his retirement from the film industry.'',
     ''The university is offering a new course on sustainable energy.'',
     ''A historic building in the city center was recently renovated.'',
     ''The annual music festival attracted thousands of visitors.'',
     ''New research suggests that meditation can improve mental health.'',
     ''The government launched a campaign to promote recycling.'',
     ''A local artist unveiled a new sculpture in the town square.'',
     ''Scientists are exploring the potential of renewable energy sources.'',
     ''The community center is organizing free workshops for residents.'',
     ''A groundbreaking ceremony was held for the new hospital wing.'',
     ''The library extended its hours to accommodate more visitors.'',
     ''A new bakery opened downtown, specializing in gluten-free pastries.'',
     ''The zoo welcomed a pair of rare pandas from China.'',
     ''An ancient manuscript was discovered in a remote monastery.'',
     ''The local theater is staging a production of Shakespeare's Hamlet.'',
     ''A tech company unveiled its latest smartphone model.'',
     ''Volunteers cleaned up the beach as part of an environmental initiative.'',
     ''A record-breaking heatwave hit the region last summer.'',
     ''A charity event raised funds for children's education.'',
     ''The city hosted an international conference on climate change.'',
     ''A famous chef published a cookbook filled with healthy recipes.'',
     ''The high school celebrated its centennial anniversary.'',
     ''A new bike-sharing program was launched in the city.'',
     ''The botanical garden is hosting a series of gardening workshops.'',
     ''A local author released a bestselling novel this month.'',
     ''The national museum opened a new exhibit on ancient Egypt.'',
     ''A renowned pianist performed at the concert hall last night.'',
     ''The wildlife reserve is home to several endangered species.'',
     ''A startup developed an app to help people with disabilities.'',
     ''The mayor announced plans for a new public transportation system.'',
     ''A research team found evidence of water on Mars.'',
     ''The sports team won their championship game in an exciting finish.'',
     ''A documentary film about climate change received critical acclaim.'',
     ''The community garden is flourishing thanks to volunteer efforts.'',
     ''An art gallery displayed works by local artists this weekend.'',
     ''A historic shipwreck was discovered off the coast.'',
     ''The orchestra played a symphony by Beethoven to a full house.'',
     ''A medical breakthrough offers new hope for cancer patients.'',
     ''The high-speed train service reduced travel time significantly.'',
     ''A new law was passed to protect endangered wildlife.'',
     ''The festival featured performances by international musicians.'',
     ''A children's book was released, inspiring young readers worldwide.'',
     ''The local market offers a wide variety of organic produce.'',
     ''A new fitness center opened with state-of-the-art equipment.'',
     ''The weather forecast predicts heavy snowfall this weekend.'',
     ''A unique art installation was set up in the city park.'',
     ''The historic district is known for its beautiful architecture.'',
     ''A charity organization provided aid to disaster-stricken areas.'',
     ''The library hosted a reading event for children.'',
     ''A new app helps users track their carbon footprint.'',
     ''The film festival showcased independent films from around the world.'',
     ''A wildlife photographer captured stunning images of a rare bird.'',
     ''The city introduced a new policy to reduce air pollution.'',
     ''A culinary school offered classes on international cuisine.'',
     ''The marathon attracted runners from various countries.'',
     ''A science fair exhibited innovative projects by students.'',
     ''The book club discussed a popular novel at their latest meeting.'',
     ''A new vaccine was developed to combat a viral outbreak.'',
     ''The theater group performed a modern adaptation of a classic play.'',
     ''A local band released their debut album to positive reviews.'',
     ''The national park is a popular destination for hikers and campers.'',
     ''A new technology aims to make solar energy more efficient.'',
     ''The charity marathon raised funds for cancer research.'',
     ''A famous artist donated a painting to the local museum.'',
     ''The farmers' market features fresh produce from local farms.'',
     ''A science experiment revealed surprising results about plant growth.'',
     ''The community center offers after-school programs for children.'',
     ''A new species of fish was discovered in the deep sea.'',
     ''The hiking trail offers breathtaking views of the mountains.'',
     ''A robotics competition challenged students to design innovative robots.'',
     ''The town square was decorated for the holiday season.'',
     ''A history professor gave a lecture on ancient civilizations.'',
     ''The aquarium added a new exhibit featuring marine life from the Arctic.'',
     ''A famous author gave a talk at the local bookstore.'',
     ''The cycling race covered challenging terrain and scenic routes.'',
     ''A local brewery released a new craft beer this month.'',
     ''The annual fair featured rides, games, and food stalls.'',
     ''A renewable energy project aims to power the entire community.'',
     ''The local symphony orchestra played a concert under the stars.'',
     ''A wildlife documentary highlighted the plight of endangered species.''
    ]"

definition generate_arbitrary_sentence :: "rng \<Rightarrow> error + (string \<times> rng)" where
  "generate_arbitrary_sentence g = random_choice arbitrary_sentences g"

text \<open>\<open>[generate_arbitrary_sentence() for _ in range(num_sentences)]\<close>\<close>

fun generate_sentences :: "nat \<Rightarrow> rng \<Rightarrow> error + (string list \<times> rng)" where
  "generate_sentences 0 g = Inr ([], g)"
| "generate_sentences (Suc n) g =
     (case generate_arbitrary_sentence g of
        Inl e \<Rightarrow> Inl e
      | Inr (s, g1) \<Rightarrow>
          (case generate_sentences n g1 of
             Inl e \<Rightarrow> Inl e
           | Inr (ss, g2) \<Rightarrow> Inr (s # ss, g2)))"

definition addany_step :: "nat \<Rightarrow> pstep" where
  "addany_step num_sentences paragraph s =
     (case s of (h, g) \<Rightarrow>
        (let context = par_context paragraph in
         case generate_sentences num_sentences g of
           Inl e \<Rightarrow> Inl e
         | Inr (sentences, g1) \<Rightarrow>
             (let adv_context = context @ '' '' @ str_join '' '' sentences in
              case qas_loop adv_context (qas paragraph) h of
                Inl e \<Rightarrow> Inl e
              | Inr (new_qas, h1) \<Rightarrow>
                  Inr (\<lparr>par_context = adv_context, qas = new_qas\<rparr>, (h1, g1)))))"

text \<open>
  \<open>def process_squad_file(input_file, output_file, num_sentences=1)\<close>: the keyword
  argument is optional, \<open>None\<close> stands for a call that omits it. The notebook's own call
  passes \<open>num_sentences=2\<close>.
\<close>

definition process_squad_file_addany :: "nat option \<Rightarrow> answer squad \<Rightarrow> rng \<Rightarrow> error + run_result" where
  "process_squad_file_addany num_sentences =
     process_squad_file (addany_step (case num_sentences of None \<Rightarrow> 1 | Some n \<Rightarrow> n))"

definition create_data_set_addany :: "answer squad \<Rightarrow> rng \<Rightarrow> error + run_result" where
  "create_data_set_addany = process_squad_file_addany (Some 2)"

section \<open>Evaluation\<close>

text \<open>
  \<open>evaluate_attack\<close> of the evaluation notebooks (the same function in each of them). The
  model, spaCy, NLTK and \<open>str.lower\<close> are collaborators and enter as parameters; the two
  scores are floats, of which the model keeps only that they are the collaborators'
  results, in a type \<open>'m\<close> of its own.
\<close>

record 'm collaborators =
  get_answer :: "string \<Rightarrow> string \<Rightarrow> string"
  lower :: "string \<Rightarrow> string"
  calculate_f1_score :: "string \<Rightarrow> string \<Rightarrow> 'm"
  calculate_bleu_score :: "string \<Rightarrow> string \<Rightarrow> 'm"
  count_grammatical_errors :: "string \<Rightarrow> int"

record 'm evaluation_row =
  attack :: string
  row_question :: string            \<comment> \<open>key \<open>'question'\<close>\<close>
  row_context :: string             \<comment> \<open>key \<open>'context'\<close>\<close>
  ground_truth :: string
  predicted_answer :: string
  exact_match :: bool
  f1_score :: 'm
  bleu_score :: 'm
  grammatical_errors :: int

text \<open>The body of \<open>for qa in paragraph['qas']\<close>; \<open>continue\<close> leaves \<open>results\<close> as it is.\<close>

definition evaluate_qa ::
    "'m collaborators \<Rightarrow> string \<Rightarrow> string \<Rightarrow> answer qa \<Rightarrow> 'm evaluation_row list
     \<Rightarrow> 'm evaluation_row list" where
  "evaluate_qa E attack_name context qa results =
     (let question = question qa in
      if answers qa \<noteq> [] then
        (let ground_truth = answer_text (hd (answers qa));
             predicted_answer = get_answer E question context
         in if \<not> str_contains (take 512 context) ground_truth then results
            else
              (let exact_match = (lower E predicted_answer = lower E ground_truth);
                   f1_score = calculate_f1_score E predicted_answer ground_truth;
                   bleu_score = calculate_bleu_score E predicted_answer ground_truth;
                   grammatical_errors = count_grammatical_errors E predicted_answer
               in results @
                  [\<lparr>attack = attack_name, row_question = question,
                    row_context = take 512 context, ground_truth = ground_truth,
                    predicted_answer = predicted_answer, exact_match = exact_match,
                    f1_score = f1_score, bleu_score = bleu_score,
                    grammatical_errors = grammatical_errors\<rparr>]))
      else results)"

fun evaluate_qas ::
    "'m collaborators \<Rightarrow> string \<Rightarrow> string \<Rightarrow> answer qa list \<Rightarrow> 'm evaluation_row list
     \<Rightarrow> 'm evaluation_row list" where
  "evaluate_qas E attack_name context [] results = results"
| "evaluate_qas E attack_name context (qa # rest) results =
     evaluate_qas E attack_name context rest (evaluate_qa E attack_name context qa results)"

fun evaluate_paragraphs ::
    "'m collaborators \<Rightarrow> string \<Rightarrow> answer squad_paragraph list \<Rightarrow> 'm evaluation_row list
     \<Rightarrow> 'm evaluation_row list" where
  "evaluate_paragraphs E attack_name [] results = results"
| "evaluate_paragraphs E attack_name (paragraph # rest) results =
     evaluate_paragraphs E attack_name rest
       (evaluate_qas E attack_name (par_context paragraph) (qas paragraph) results)"

fun evaluate_articles ::
    "'m collaborators \<Rightarrow> string \<Rightarrow> answer article list \<Rightarrow> 'm evaluation_row list
     \<Rightarrow> 'm evaluation_row list" where
  "evaluate_articles E attack_name [] results = results"
| "evaluate_articles E attack_name (article # rest) results =
     evaluate_articles E attack_name rest
       (evaluate_paragraphs E attack_name (paragraphs article) results)"

definition evaluate_attack ::
    "'m collaborators \<Rightarrow> answer article list \<Rightarrow> string \<Rightarrow> 'm evaluation_row list" where
  "evaluate_attack E data_list attack_name = evaluate_articles E attack_name data_list []"

section \<open>Notions used to state the properties\<close>

text \<open>\<open>sub\<close> occurs in \<open>s\<close> at index \<open>i\<close>: \<open>s[i : i + len(sub)] == sub\<close>.\<close>

definition occurs_at :: "string \<Rightarrow> string \<Rightarrow> nat \<Rightarrow> bool" where
  "occurs_at s sub i = (take (length sub) (drop i s) = sub)"

text \<open>\<open>k\<close> is the smallest index at which \<open>sub\<close> occurs in \<open>s\<close>.\<close>

definition first_occurrence :: "string \<Rightarrow> string \<Rightarrow> int \<Rightarrow> bool" where
  "first_occurrence s sub k =
     (0 \<le> k \<and> occurs_at s sub (nat k) \<and> (\<forall>j < nat k. \<not> occurs_at s sub j))"

text \<open>
  What the loop body does to one question-answer pair, seen on values: the first answer
  gets the index of its text in the adversarial context, everything else stays.
\<close>

definition relocate_qa :: "string \<Rightarrow> answer qa \<Rightarrow> error + answer qa" where
  "relocate_qa adv_context q =
     (if answers q \<noteq> [] then
        (case str_index adv_context (answer_text (hd (answers q))) of
           Inl e \<Rightarrow> Inl e
         | Inr i \<Rightarrow> Inr (q\<lparr>answers := (hd (answers q))\<lparr>answer_start := int i\<rparr> # tl (answers q)\<rparr>))
      else Inr q)"

definition relocated :: "string \<Rightarrow> answer qa \<Rightarrow> answer qa \<Rightarrow> bool" where
  "relocated adv_context q q' = (relocate_qa adv_context q = Inr q')"

definition locatable :: "string \<Rightarrow> answer qa \<Rightarrow> bool" where
  "locatable adv_context q =
     (answers q \<noteq> [] \<longrightarrow> str_contains adv_context (answer_text (hd (answers q))))"

text \<open>Two stores agree on the cells from \<open>lo\<close> up to \<open>hi\<close>; a store differs from another
  at most there.\<close>

definition agree :: "nat \<Rightarrow> nat \<Rightarrow> heap \<Rightarrow> heap \<Rightarrow> bool" where
  "agree lo hi h h' = (\<forall>a. lo \<le> a \<and> a < hi \<longrightarrow> h ! a = h' ! a)"

definition frame :: "nat \<Rightarrow> nat \<Rightarrow> heap \<Rightarrow> heap \<Rightarrow> bool" where
  "frame lo hi h h' = (length h' = length h \<and> (\<forall>a. a < lo \<or> hi \<le> a \<longrightarrow> h' ! a = h ! a))"

text \<open>
  An output paragraph against its input paragraph: the context is extended after a space,
  and the pairs are the input's pairs relocated in the new context, one for one and in
  order. Likewise for articles.
\<close>

definition par_rel :: "answer squad_paragraph \<Rightarrow> answer squad_paragraph \<Rightarrow> bool" where
  "par_rel p p' =
     (prefix (par_context p @ '' '') (par_context p')
      \<and> list_all2 (relocated (par_context p')) (qas p) (qas p'))"

definition art_rel :: "answer article \<Rightarrow> answer article \<Rightarrow> bool" where
  "art_rel a a' = (title a' = title a \<and> list_all2 par_rel (paragraphs a) (paragraphs a'))"

text \<open>
  What a paragraph step has to do on a paragraph that \<open>json.load\<close> placed in the cells from
  \<open>length h0\<close> up to \<open>length h1\<close>, in any later store that still holds the loaded
  values there: it fails only on a paragraph that is not \<open>good\<close>, and otherwise keeps the
  paragraph's question-answer objects, writes only to the paragraph's own cells and
  yields a paragraph related to the input by \<open>par_rel\<close>.
\<close>

definition step_sound :: "pstep \<Rightarrow> (answer squad_paragraph \<Rightarrow> bool) \<Rightarrow> bool" where
  "step_sound step good =
     (\<forall>p h0 mp h1 h g.
        load_paragraph p h0 = (mp, h1) \<longrightarrow> length h1 \<le> length h \<longrightarrow>
        agree (length h0) (length h1) h h1 \<longrightarrow>
        (case step mp (h, g) of
           Inl e \<Rightarrow> \<not> good p
         | Inr (m', (h', g')) \<Rightarrow>
             qas m' = qas mp \<and> frame (length h0) (length h1) h h'
             \<and> par_rel p (dump_paragraph h' m')))"

text \<open>The hypothesis on input corpora: every non-empty first answer text occurs in the
  context of its paragraph.\<close>

definition answers_in_context :: "answer squad \<Rightarrow> bool" where
  "answers_in_context c =
     (\<forall>a \<in> set (data c). \<forall>p \<in> set (paragraphs a). \<forall>q \<in> set (qas p).
        answers q \<noteq> [] \<and> answer_text (hd (answers q)) \<noteq> [] \<longrightarrow>
        str_contains (par_context p) (answer_text (hd (answers q))))"

text \<open>Context containment: \<open>context[answer_start : answer_start + len(text)] == text\<close> for
  the first answer of every pair that has answers.\<close>

definition context_containment :: "answer squad \<Rightarrow> bool" where
  "context_containment c =
     (\<forall>a \<in> set (data c). \<forall>p \<in> set (paragraphs a). \<forall>q \<in> set (qas p).
        answers q \<noteq> [] \<longrightarrow>
        py_slice (par_context p) (answer_start (hd (answers q)))
          (answer_start (hd (answers q)) + int (length (answer_text (hd (answers q)))))
        = answer_text (hd (answers q)))"

text \<open>Two question-answer pairs agree on everything except, possibly, the
  \<open>answer_start\<close> of the first answer.\<close>

definition same_qa :: "answer qa \<Rightarrow> answer qa \<Rightarrow> bool" where
  "same_qa q q' =
     (question q' = question q \<and> qa_id q' = qa_id q \<and> is_impossible q' = is_impossible q
      \<and> length (answers q') = length (answers q)
      \<and> map answer_text (answers q') = map answer_text (answers q)
      \<and> tl (answers q') = tl (answers q))"

text \<open>The output has the input's articles, paragraphs and question-answer pairs, one
  for one and in order, each pair unchanged except for that one field.\<close>

definition qapairs_preserved :: "answer squad \<Rightarrow> answer squad \<Rightarrow> bool" where
  "qapairs_preserved c c' =
     list_all2
       (\<lambda>a a'. list_all2
          (\<lambda>p p'. length (qas p') = length (qas p) \<and> list_all2 same_qa (qas p) (qas p'))
          (paragraphs a) (paragraphs a'))
       (data c) (data c')"

text \<open>
  Where the input offset of a pair points at an occurrence of the answer text in the
  original context, the output offset is the first occurrence of the text in the original
  context: it is at most the input offset, and equal to it when the input offset was the
  first occurrence already.
\<close>

definition offset_relocated :: "string \<Rightarrow> answer qa \<Rightarrow> answer qa \<Rightarrow> bool" where
  "offset_relocated context q q' =
     (answers q \<noteq> [] \<and> 0 \<le> answer_start (hd (answers q))
        \<and> occurs_at context (answer_text (hd (answers q))) (nat (answer_start (hd (answers q))))
      \<longrightarrow>
        answers q' \<noteq> []
        \<and> first_occurrence context (answer_text (hd (answers q))) (answer_start (hd (answers q')))
        \<and> answer_start (hd (answers q')) \<le> answer_start (hd (answers q))
        \<and> (first_occurrence context (answer_text (hd (answers q))) (answer_start (hd (answers q)))
             \<longrightarrow> answer_start (hd (answers q')) = answer_start (hd (answers q))))"

definition offsets_relocated :: "answer squad \<Rightarrow> answer squad \<Rightarrow> bool" where
  "offsets_relocated c c' =
     list_all2
       (\<lambda>a a'. list_all2
          (\<lambda>p p'. list_all2 (offset_relocated (par_context p)) (qas p) (qas p'))
          (paragraphs a) (paragraphs a'))
       (data c) (data c')"

text \<open>Every first answer's offset is the smallest index at which its text occurs in
  the context of its paragraph.\<close>

definition first_occurrences :: "answer squad \<Rightarrow> bool" where
  "first_occurrences c =
     (\<forall>a \<in> set (data c). \<forall>p \<in> set (paragraphs a). \<forall>q \<in> set (qas p).
        answers q \<noteq> [] \<longrightarrow>
        first_occurrence (par_context p) (answer_text (hd (answers q)))
          (answer_start (hd (answers q))))"

text \<open>The question-answer pairs of a corpus, article by article and paragraph by
  paragraph.\<close>

definition all_qas :: "answer squad \<Rightarrow> answer qa list list list" where
  "all_qas c = map (\<lambda>a. map qas (paragraphs a)) (data c)"

text \<open>A question-answer pair is scored when it has answers and the text of the first
  occurs in the first 512 characters of the context.\<close>

definition scored :: "string \<Rightarrow> answer qa \<Rightarrow> bool" where
  "scored context qa =
     (answers qa \<noteq> [] \<and> str_contains (take 512 context) (answer_text (hd (answers qa))))"

text \<open>The question-answer pairs of a data set in processing order, each with the context
  of its paragraph.\<close>

definition qa_occurrences :: "answer article list \<Rightarrow> (string \<times> answer qa) list" where
  "qa_occurrences data_list =
     concat (map (\<lambda>a. concat (map (\<lambda>p. map (\<lambda>q. (par_context p, q)) (qas p)) (paragraphs a)))
               data_list)"

text \<open>The row of a scored pair.\<close>

definition row_of :: "'m collaborators \<Rightarrow> string \<Rightarrow> string \<times> answer qa \<Rightarrow> 'm evaluation_row" where
  "row_of E attack_name cq =
     (case cq of (context, qa) \<Rightarrow>
        \<lparr>attack = attack_name, row_question = question qa,
         row_context = take 512 context,
         ground_truth = answer_text (hd (answers qa)),
         predicted_answer = get_answer E (question qa) context,
         exact_match = (lower E (get_answer E (question qa) context)
                        = lower E (answer_text (hd (answers qa)))),
         f1_score = calculate_f1_score E (get_answer E (question qa) context)
                      (answer_text (hd (answers qa))),
         bleu_score = calculate_bleu_score E (get_answer E (question qa) context)
                        (answer_text (hd (answers qa))),
         grammatical_errors = count_grammatical_errors E (get_answer E (question qa) context)\<rparr>)"

text \<open>AddSent can run on a corpus: every paragraph has a question-answer pair, and the
  tagger finds a key word in every question.\<close>

definition addsent_ready :: "tagger \<Rightarrow> answer squad \<Rightarrow> bool" where
  "addsent_ready nlp c =
     (\<forall>a \<in> set (data c). \<forall>p \<in> set (paragraphs a).
        qas p \<noteq> [] \<and> (\<forall>q \<in> set (qas p). key_words_of (nlp (question q)) \<noteq> []))"

text \<open>On such a paragraph the AddSent step cannot fail, if moreover its answer texts
  occur in its context.\<close>

definition addsent_good :: "tagger \<Rightarrow> answer squad_paragraph \<Rightarrow> bool" where
  "addsent_good nlp p =
     (list_all (locatable (par_context p)) (qas p) \<and> qas p \<noteq> []
      \<and> (\<forall>q \<in> set (qas p). key_words_of (nlp (question q)) \<noteq> []))"

text \<open>The contexts of a corpus, and the offsets of all its answers, in document order.\<close>

definition contexts :: "answer squad \<Rightarrow> string list" where
  "contexts c = concat (map (\<lambda>a. map par_context (paragraphs a)) (data c))"

definition answer_starts :: "answer squad \<Rightarrow> int list" where
  "answer_starts c =
     concat (map (\<lambda>a. concat (map (\<lambda>p. concat (map (\<lambda>q. map answer_start (answers q)) (qas p)))
                                (paragraphs a)))
               (data c))"

text \<open>The generation without the store: the same loops as functions from the input
  corpus and the random source to the written corpus or the error raised.\<close>

text \<open>The loop over a paragraph's pairs, on values.\<close>

fun relocate_qas :: "string \<Rightarrow> answer qa list \<Rightarrow> error + answer qa list" where
  "relocate_qas adv_context [] = Inr []"
| "relocate_qas adv_context (q # qs) =
     (case relocate_qa adv_context q of
        Inl e \<Rightarrow> Inl e
      | Inr q' \<Rightarrow>
          (case relocate_qas adv_context qs of
             Inl e \<Rightarrow> Inl e
           | Inr qs' \<Rightarrow> Inr (q' # qs')))"

text \<open>\<open>generate_adversarial_sentence\<close> on values.\<close>

definition sentence_value :: "tagger \<Rightarrow> answer qa list \<Rightarrow> rng \<Rightarrow> error + (string \<times> rng)" where
  "sentence_value nlp qas_list g =
     (case random_choice qas_list g of
        Inl e \<Rightarrow> Inl e
      | Inr (qa, g1) \<Rightarrow>
          (let question = question qa;
               answer = (if answers qa \<noteq> [] then answer_text (hd (answers qa)) else []);
               doc = nlp question;
               key_words = key_words_of doc
           in if answer \<noteq> []
              then (case random_choice key_words g1 of
                      Inl e \<Rightarrow> Inl e
                    | Inr (key_word, g2) \<Rightarrow>
                        Inr (''However, '' @ key_word @ '' is not related to '' @ answer @ ''.'', g2))
              else (case random_choice key_words g1 of
                      Inl e \<Rightarrow> Inl e
                    | Inr (key_word, g2) \<Rightarrow>
                        Inr (''However, '' @ key_word @ '' is not relevant to this context.'', g2))))"

type_synonym vstep = "answer squad_paragraph \<Rightarrow> rng \<Rightarrow> error + (answer squad_paragraph \<times> rng)"

definition addsent_value :: "tagger \<Rightarrow> vstep" where
  "addsent_value nlp p g =
     (case sentence_value nlp (qas p) g of
        Inl e \<Rightarrow> Inl e
      | Inr (adv_sentence, g1) \<Rightarrow>
          (let adv_context = par_context p @ '' '' @ adv_sentence in
           case relocate_qas adv_context (qas p) of
             Inl e \<Rightarrow> Inl e
           | Inr new_qas \<Rightarrow> Inr (\<lparr>par_context = adv_context, qas = new_qas\<rparr>, g1)))"

definition addany_value :: "nat \<Rightarrow> vstep" where
  "addany_value num_sentences p g =
     (case generate_sentences num_sentences g of
        Inl e \<Rightarrow> Inl e
      | Inr (sentences, g1) \<Rightarrow>
          (let adv_context = par_context p @ '' '' @ str_join '' '' sentences in
           case relocate_qas adv_context (qas p) of
             Inl e \<Rightarrow> Inl e
           | Inr new_qas \<Rightarrow> Inr (\<lparr>par_context = adv_context, qas = new_qas\<rparr>, g1)))"

fun transform_paragraphs :: "vstep \<Rightarrow> answer squad_paragraph list \<Rightarrow> rng \<Rightarrow>
    error + (answer squad_paragraph list \<times> rng)" where
  "transform_paragraphs vs [] g = Inr ([], g)"
| "transform_paragraphs vs (p # ps) g =
     (case vs p g of
        Inl e \<Rightarrow> Inl e
      | Inr (p', g1) \<Rightarrow>
          (case transform_paragraphs vs ps g1 of
             Inl e \<Rightarrow> Inl e
           | Inr (ps', g2) \<Rightarrow> Inr (p' # ps', g2)))"

fun transform_articles :: "vstep \<Rightarrow> answer article list \<Rightarrow> rng \<Rightarrow>
    error + (answer article list \<times> rng)" where
  "transform_articles vs [] g = Inr ([], g)"
| "transform_articles vs (a # as) g =
     (case transform_paragraphs vs (paragraphs a) g of
        Inl e \<Rightarrow> Inl e
      | Inr (ps', g1) \<Rightarrow>
          (case transform_articles vs as g1 of
             Inl e \<Rightarrow> Inl e
           | Inr (as', g2) \<Rightarrow> Inr (\<lparr>title = title a, paragraphs = ps'\<rparr> # as', g2)))"

definition transform_corpus :: "vstep \<Rightarrow> answer squad \<Rightarrow> rng \<Rightarrow> error + answer squad" where
  "transform_corpus vs input g =
     (case transform_articles vs (data input) g of
        Inl e \<Rightarrow> Inl e
      | Inr (as', g') \<Rightarrow> Inr \<lparr>version = ''v2.0'', data = as'\<rparr>)"

definition step_refines :: "pstep \<Rightarrow> vstep \<Rightarrow> bool" where
  "step_refines step vs =
     (\<forall>p h0 mp h1 h g.
        load_paragraph p h0 = (mp, h1) \<longrightarrow> length h1 \<le> length h \<longrightarrow>
        agree (length h0) (length h1) h h1 \<longrightarrow>
        (case vs p g of
           Inl e \<Rightarrow> step mp (h, g) = Inl e
         | Inr (p', g') \<Rightarrow>
             (\<exists>m' h'. step mp (h, g) = Inr (m', (h', g')) \<and> qas m' = qas mp
                \<and> frame (length h0) (length h1) h h' \<and> dump_paragraph h' m' = p')))"

text \<open>
  The output against the input, pair by pair: the output has the input's articles,
  paragraphs and question-answer pairs, one for one and in order; every context is the
  input context extended after a space; every pair is its input pair up to
  \<open>answers[0].answer_start\<close>; and for every input pair with answers, the text of its
  first answer occurs in the new context and the output \<open>answer_start\<close> is the smallest
  index at which it occurs there.
\<close>

definition qa_relocated_in :: "string \<Rightarrow> answer qa \<Rightarrow> answer qa \<Rightarrow> bool" where
  "qa_relocated_in new_context q q' =
     (same_qa q q'
      \<and> (answers q \<noteq> [] \<longrightarrow>
           str_contains new_context (answer_text (hd (answers q)))
           \<and> first_occurrence new_context (answer_text (hd (answers q)))
                (answer_start (hd (answers q')))))"

definition relocated_in_new_context :: "answer squad \<Rightarrow> answer squad \<Rightarrow> bool" where
  "relocated_in_new_context c c' =
     list_all2
       (\<lambda>a a'. title a' = title a \<and>
          list_all2
            (\<lambda>p p'. prefix (par_context p @ '' '') (par_context p')
                     \<and> list_all2 (qa_relocated_in (par_context p')) (qas p) (qas p'))
            (paragraphs a) (paragraphs a'))
       (data c) (data c')"

section \<open>Example inputs\<close>

text \<open>A random source whose every draw is 0, and one whose draws are 3, 3, 3, ...\<close>

definition zero_rng :: rng where
  "zero_rng = (\<lambda>i. 0)"

definition three_rng :: rng where
  "three_rng = (\<lambda>i. 3)"

text \<open>A tagger that knows one question.\<close>

definition sky_tagger :: tagger where
  "sky_tagger s =
     (if s = ''What color is the sky?'' then
        [\<lparr>token_text = ''What'', pos_tag = ''PRON''\<rparr>,
         \<lparr>token_text = ''color'', pos_tag = ''NOUN''\<rparr>,
         \<lparr>token_text = ''is'', pos_tag = ''AUX''\<rparr>,
         \<lparr>token_text = ''the'', pos_tag = ''DET''\<rparr>,
         \<lparr>token_text = ''sky'', pos_tag = ''NOUN''\<rparr>,
         \<lparr>token_text = ''?'', pos_tag = ''PUNCT''\<rparr>]
      else [])"

definition sky_corpus :: "answer squad" where
  "sky_corpus =
     \<lparr>version = ''v2.0'',
      data = [\<lparr>title = ''Sky'',
               paragraphs =
                 [\<lparr>par_context = ''The sky is blue.'',
                   qas = [\<lparr>question = ''What color is the sky?'', qa_id = Some ''q1'',
                           is_impossible = Some False,
                           answers = [\<lparr>answer_text = ''blue'', answer_start = 11\<rparr>]\<rparr>,
                          \<lparr>question = ''Who painted the sky?'', qa_id = Some ''q2'',
                           is_impossible = Some True, answers = []\<rparr>]\<rparr>]\<rparr>]\<rparr>"

text \<open>A paragraph whose answer offset points at the second occurrence of the answer text.\<close>

definition test_corpus :: "answer squad" where
  "test_corpus =
     \<lparr>version = ''v2.0'',
      data = [\<lparr>title = ''Test'',
               paragraphs =
                 [\<lparr>par_context = ''This is a test.'',
                   qas = [\<lparr>question = ''What is this?'', qa_id = Some ''t1'',
                           is_impossible = Some False,
                           answers = [\<lparr>answer_text = ''is'', answer_start = 5\<rparr>]\<rparr>]\<rparr>]\<rparr>]\<rparr>"

text \<open>A tagger that takes the whole question for one noun.\<close>

definition noun_tagger :: tagger where
  "noun_tagger s = [\<lparr>token_text = s, pos_tag = ''NOUN''\<rparr>]"

text \<open>A paragraph with an answer text that its context does not contain, after a pair
  whose text it does contain.\<close>

definition rome_corpus :: "answer squad" where
  "rome_corpus =
     \<lparr>version = ''v2.0'',
      data = [\<lparr>title = ''France'',
               paragraphs =
                 [\<lparr>par_context = ''Paris is the capital of France.'',
                   qas = [\<lparr>question = ''What is the capital of France?'', qa_id = Some ''f1'',
                           is_impossible = Some False,
                           answers = [\<lparr>answer_text = ''Paris'', answer_start = 0\<rparr>]\<rparr>,
                          \<lparr>question = ''What is the capital of Italy?'', qa_id = Some ''f2'',
                           is_impossible = Some False,
                           answers = [\<lparr>answer_text = ''Rome'', answer_start = 0\<rparr>]\<rparr>]\<rparr>]\<rparr>]\<rparr>"

text \<open>A tagger that takes the whole question for one punctuation token.\<close>

definition punct_tagger :: tagger where
  "punct_tagger s = [\<lparr>token_text = s, pos_tag = ''PUNCT''\<rparr>]"

text \<open>Collaborators for an example: the model answers with the first word of the
  context, lower-casing is the identity, and the scores are constant.\<close>

definition first_word_collaborators :: "nat collaborators" where
  "first_word_collaborators =
     \<lparr>get_answer = (\<lambda>question context. takeWhile (\<lambda>c. c \<noteq> CHR '' '') context),
      lower = (\<lambda>s. s),
      calculate_f1_score = (\<lambda>p t. 0),
      calculate_bleu_score = (\<lambda>p t. 0),
      count_grammatical_errors = (\<lambda>p. 0)\<rparr>"

text \<open>A corpus whose second paragraph has a question without any key word.\<close>

definition marks_corpus :: "answer squad" where
  "marks_corpus =
     \<lparr>version = ''v2.0'',
      data = [\<lparr>title = ''Sky'',
               paragraphs =
                 [\<lparr>par_context = ''The sky is blue.'',
                   qas = [\<lparr>question = ''What color is the sky?'', qa_id = Some ''q1'',
                           is_impossible = Some False,
                           answers = [\<lparr>answer_text = ''blue'', answer_start = 11\<rparr>]\<rparr>]\<rparr>,
                  \<lparr>par_context = ''The sea is green.'',
                   qas = [\<lparr>question = ''???'', qa_id = Some ''q2'',
                           is_impossible = Some True, answers = []\<rparr>]\<rparr>]\<rparr>]\<rparr>"

section \<open>Auxiliary lemmas\<close>

subsection \<open>First occurrences\<close>

lemma prefix_take_eq: "prefix sub s \<longleftrightarrow> take (length sub) s = sub"
proof
  assume "prefix sub s"
  then obtain t where "s = sub @ t" by (auto simp: prefix_def)
  then show "take (length sub) s = sub" by simp
next
  assume "take (length sub) s = sub"
  then show "prefix sub s" using take_is_prefix[of "length sub" s] by simp
qed

lemma occurs_at_0: "occurs_at s sub 0 \<longleftrightarrow> prefix sub s"
  by (simp add: occurs_at_def prefix_take_eq)

lemma occurs_at_Suc: "occurs_at (c # cs) sub (Suc i) \<longleftrightarrow> occurs_at cs sub i"
  by (simp add: occurs_at_def)

lemma occurs_at_Nil: "occurs_at [] sub i \<longleftrightarrow> sub = []"
  by (auto simp: occurs_at_def)

lemma str_find_None: "str_find s sub = None \<longleftrightarrow> (\<forall>i. \<not> occurs_at s sub i)"
proof (induction s)
  case Nil
  then show ?case by (auto simp: occurs_at_Nil)
next
  case (Cons c cs)
  show ?case
  proof (cases "prefix sub (c # cs)")
    case True
    then show ?thesis using occurs_at_0 by auto
  next
    case False
    have "(\<forall>i. \<not> occurs_at (c # cs) sub i) \<longleftrightarrow> (\<forall>i. \<not> occurs_at cs sub i)"
    proof
      assume a: "\<forall>i. \<not> occurs_at (c # cs) sub i"
      show "\<forall>i. \<not> occurs_at cs sub i"
        using a occurs_at_Suc by blast
    next
      assume a: "\<forall>i. \<not> occurs_at cs sub i"
      show "\<forall>i. \<not> occurs_at (c # cs) sub i"
      proof
        fix i show "\<not> occurs_at (c # cs) sub i"
          using a False by (cases i) (auto simp: occurs_at_0 occurs_at_Suc)
      qed
    qed
    with False Cons show ?thesis by simp
  qed
qed

lemma str_find_Some:
  "str_find s sub = Some i \<longleftrightarrow> occurs_at s sub i \<and> (\<forall>j<i. \<not> occurs_at s sub j)"
proof (induction s arbitrary: i)
  case Nil
  then show ?case by (auto simp: occurs_at_Nil)
next
  case (Cons c cs)
  show ?case
  proof (cases "prefix sub (c # cs)")
    case True
    then show ?thesis using occurs_at_0 by auto
  next
    case False
    show ?thesis
    proof (cases i)
      case 0
      with False show ?thesis by (simp add: occurs_at_0)
    next
      case (Suc k)
      have "(\<forall>j<Suc k. \<not> occurs_at (c # cs) sub j) \<longleftrightarrow> (\<forall>j<k. \<not> occurs_at cs sub j)"
      proof
        assume a: "\<forall>j<Suc k. \<not> occurs_at (c # cs) sub j"
        show "\<forall>j<k. \<not> occurs_at cs sub j"
        proof (intro allI impI)
          fix j assume "j < k"
          then have "\<not> occurs_at (c # cs) sub (Suc j)" using a by simp
          then show "\<not> occurs_at cs sub j" by (simp add: occurs_at_Suc)
        qed
      next
        assume a: "\<forall>j<k. \<not> occurs_at cs sub j"
        show "\<forall>j<Suc k. \<not> occurs_at (c # cs) sub j"
        proof (intro allI impI)
          fix j assume "j < Suc k"
          then show "\<not> occurs_at (c # cs) sub j"
            using a False by (cases j) (auto simp: occurs_at_0 occurs_at_Suc)
        qed
      qed
      with False Suc Cons[of k] show ?thesis by (auto simp: occurs_at_Suc)
    qed
  qed
qed

lemma occurs_at_append: "occurs_at s sub i \<Longrightarrow> occurs_at (s @ t) sub i"
proof -
  assume h: "occurs_at s sub i"
  then have e: "take (length sub) (drop i s) = sub" by (simp add: occurs_at_def)
  have "length (take (length sub) (drop i s)) = length sub" using e by simp
  then have "length sub \<le> length s - i" by simp
  then show ?thesis using e by (simp add: occurs_at_def)
qed

subsection \<open>Stores\<close>

lemma agree_sub: "agree lo hi h h' \<Longrightarrow> lo \<le> lo' \<Longrightarrow> hi' \<le> hi \<Longrightarrow> agree lo' hi' h h'"
  by (simp add: agree_def)

lemma agree_append: "hi \<le> length h1 \<Longrightarrow> agree lo hi h (h1 @ ys) \<Longrightarrow> agree lo hi h h1"
  by (simp add: agree_def nth_append)

lemma frame_agree_after:
  "frame lo mid h h' \<Longrightarrow> agree mid hi h h1 \<Longrightarrow> agree mid hi h' h1"
  by (simp add: agree_def frame_def)

lemma frame_trans:
  "frame lo mid h h' \<Longrightarrow> frame mid hi h' h'' \<Longrightarrow> lo \<le> mid \<Longrightarrow> mid \<le> hi \<Longrightarrow> frame lo hi h h''"
  by (simp add: frame_def)

lemma frame_agree_before:
  "frame mid hi h' h'' \<Longrightarrow> agree lo mid h'' h'"
  by (simp add: agree_def frame_def)

lemma frame_refl: "frame lo hi h h"
  by (simp add: frame_def)

subsection \<open>The loop over question-answer pairs, on values\<close>

text \<open>
  On the objects that loading built, and in any store that still holds the loaded values
  in their cells, the loop fails exactly when a pair cannot be relocated, and otherwise
  returns the objects it was given, writes to their cells only and leaves them holding
  the relocated pairs.
\<close>

lemma dump_load_qa:
  assumes "load_qa q h0 = (m, h1)" and "agree (length h0) (length h1) h h1"
  shows "dump_qa h m = q"
proof -
  have m: "answers m = [length h0 ..< length h0 + length (answers q)]"
    and h1: "h1 = h0 @ answers q"
    and f: "question m = question q" "qa_id m = qa_id q" "is_impossible m = is_impossible q"
    using assms(1) by (auto simp: load_qa_def)
  have "map (\<lambda>a. h ! a) (answers m) = answers q"
  proof (rule nth_equalityI)
    show "length (map (\<lambda>a. h ! a) (answers m)) = length (answers q)" by (simp add: m)
  next
    fix i assume "i < length (map (\<lambda>a. h ! a) (answers m))"
    then have i: "i < length (answers q)" by (simp add: m)
    then have "h ! (length h0 + i) = h1 ! (length h0 + i)"
      using assms(2) by (simp add: agree_def h1)
    then show "map (\<lambda>a. h ! a) (answers m) ! i = answers q ! i"
      using i by (simp add: m h1 nth_append)
  qed
  then show ?thesis by (simp add: dump_qa_def f)
qed

lemma qa_step_value:
  assumes L: "load_qa q h0 = (m, h1)" and len: "length h1 \<le> length h"
    and ag: "agree (length h0) (length h1) h h1"
  shows "case relocate_qa adv q of
           Inl e \<Rightarrow> qa_step adv m h = Inl e
         | Inr q' \<Rightarrow> (\<exists>h'. qa_step adv m h = Inr (m, h') \<and> frame (length h0) (length h1) h h'
                          \<and> dump_qa h' m = q')"
proof (cases "answers q = []")
  case True
  have "answers m = []" using L True by (auto simp: load_qa_def)
  moreover have "dump_qa h m = q" using dump_load_qa[OF L ag] .
  ultimately show ?thesis using True
    by (simp add: relocate_qa_def qa_step_def frame_refl)
next
  case False
  have m: "answers m = [length h0 ..< length h0 + length (answers q)]"
    and h1: "h1 = h0 @ answers q"
    and f: "question m = question q" "qa_id m = qa_id q" "is_impossible m = is_impossible q"
    using L by (auto simp: load_qa_def)
  from False have pos: "0 < length (answers q)" by simp
  have mne: "answers m \<noteq> []" using pos by (simp add: m)
  have hdm: "hd (answers m) = length h0" using pos by (simp add: m upt_conv_Cons)
  have dq: "dump_qa h m = q" using dump_load_qa[OF L ag] .
  have cell: "h ! length h0 = hd (answers q)"
  proof -
    have "h ! length h0 = h1 ! length h0" using ag pos by (simp add: agree_def h1)
    also have "\<dots> = answers q ! 0" by (simp add: h1 nth_append)
    also have "\<dots> = hd (answers q)" using False by (simp add: hd_conv_nth)
    finally show ?thesis .
  qed
  show ?thesis
  proof (cases "str_index adv (answer_text (hd (answers q)))")
    case (Inl e)
    then show ?thesis using False mne by (simp add: relocate_qa_def qa_step_def hdm cell)
  next
    case (Inr i)
    let ?h' = "h[length h0 := (hd (answers q))\<lparr>answer_start := int i\<rparr>]"
    have st: "qa_step adv m h = Inr (m, ?h')"
      using Inr mne by (simp add: qa_step_def hdm cell)
    have inb: "length h0 < length h" using len False by (cases "answers q") (simp_all add: h1)
    obtain x xs where ax: "answers q = x # xs" using False by (cases "answers q") auto
    have fr: "frame (length h0) (length h1) h ?h'"
      by (auto simp: frame_def h1 ax)
    have "map (\<lambda>a. ?h' ! a) (answers m) = (hd (answers q))\<lparr>answer_start := int i\<rparr> # tl (answers q)"
    proof (rule nth_equalityI)
      show "length (map (\<lambda>a. ?h' ! a) (answers m))
            = length ((hd (answers q))\<lparr>answer_start := int i\<rparr> # tl (answers q))"
        using pos by (simp add: m)
    next
      fix k assume "k < length (map (\<lambda>a. ?h' ! a) (answers m))"
      then have k: "k < length (answers q)" by (simp add: m)
      have old: "map (\<lambda>a. h ! a) (answers m) ! k = answers q ! k"
        using dq k by (metis dump_qa_def qa.select_convs(4))
      show "map (\<lambda>a. ?h' ! a) (answers m) ! k
            = ((hd (answers q))\<lparr>answer_start := int i\<rparr> # tl (answers q)) ! k"
      proof (cases k)
        case 0
        then show ?thesis using k inb by (simp add: m)
      next
        case (Suc j)
        then show ?thesis using k old False by (simp add: m nth_tl)
      qed
    qed
    then have "dump_qa ?h' m = q\<lparr>answers := (hd (answers q))\<lparr>answer_start := int i\<rparr> # tl (answers q)\<rparr>"
      by (simp add: dump_qa_def f)
    then show ?thesis using Inr False st fr by (simp add: relocate_qa_def)
  qed
qed

lemma relocate_qa_Inl: "relocate_qa adv q = Inl e \<Longrightarrow> e = ValueError \<and> \<not> locatable adv q"
  by (auto simp: relocate_qa_def locatable_def str_index_def str_contains_def
      split: if_splits option.splits)

lemma relocate_qa_Inr: "relocate_qa adv q = Inr q' \<Longrightarrow> locatable adv q"
  by (auto simp: relocate_qa_def locatable_def str_index_def str_contains_def
      split: if_splits option.splits)

lemma load_qa_prefix: "load_qa q h0 = (m, h1) \<Longrightarrow> \<exists>ys. h1 = h0 @ ys"
  by (auto simp: load_qa_def)

lemma load_qas_prefix: "load_qas qs h0 = (ms, h1) \<Longrightarrow> \<exists>ys. h1 = h0 @ ys"
proof (induction qs arbitrary: h0 ms h1)
  case Nil
  then show ?case by simp
next
  case (Cons q qs)
  obtain m ha where a: "load_qa q h0 = (m, ha)" by (cases "load_qa q h0")
  obtain ms' hb where b: "load_qas qs ha = (ms', hb)" by (cases "load_qas qs ha")
  from Cons.prems a b have "h1 = hb" by simp
  moreover obtain ys where "ha = h0 @ ys" using load_qa_prefix[OF a] by blast
  moreover obtain zs where "hb = ha @ zs" using Cons.IH[OF b] by blast
  ultimately show ?case by simp
qed

lemma dump_qa_agree:
  assumes "load_qa q h0 = (m, h1)" and "agree (length h0) (length h1) h h'"
  shows "dump_qa h m = dump_qa h' m"
proof -
  have m: "answers m = [length h0 ..< length h0 + length (answers q)]"
    and h1: "h1 = h0 @ answers q"
    using assms(1) by (auto simp: load_qa_def)
  have "map (\<lambda>a. h ! a) (answers m) = map (\<lambda>a. h' ! a) (answers m)"
    using assms(2) by (auto simp: agree_def m h1)
  then show ?thesis by (simp add: dump_qa_def)
qed

lemma dump_qas_agree:
  "load_qas qs h0 = (ms, h1) \<Longrightarrow> agree (length h0) (length h1) h h'
   \<Longrightarrow> map (dump_qa h) ms = map (dump_qa h') ms"
proof (induction qs arbitrary: h0 ms h1)
  case Nil
  then show ?case by simp
next
  case (Cons q qs)
  obtain m ha where a: "load_qa q h0 = (m, ha)" by (cases "load_qa q h0")
  obtain ms' hb where b: "load_qas qs ha = (ms', hb)" by (cases "load_qas qs ha")
  from Cons.prems(1) a b have e: "ms = m # ms'" "h1 = hb" by simp_all
  obtain ys where ys: "ha = h0 @ ys" using load_qa_prefix[OF a] by blast
  obtain zs where zs: "hb = ha @ zs" using load_qas_prefix[OF b] by blast
  have "agree (length h0) (length ha) h h'"
    using Cons.prems(2) by (rule agree_sub) (simp_all add: e zs)
  then have 1: "dump_qa h m = dump_qa h' m" using dump_qa_agree[OF a] by simp
  have "agree (length ha) (length hb) h h'"
    using Cons.prems(2) by (rule agree_sub) (simp_all add: e ys)
  then have 2: "map (dump_qa h) ms' = map (dump_qa h') ms'" using Cons.IH[OF b] by simp
  show ?case using 1 2 e by simp
qed

lemma agree_refl: "agree lo hi h h"
  by (simp add: agree_def)

lemma qas_loop_value:
  assumes "load_qas qs h0 = (ms, h1)" and "length h1 \<le> length h"
    and "agree (length h0) (length h1) h h1"
  shows "case qas_loop adv ms h of
           Inl e \<Rightarrow> e = ValueError \<and> \<not> list_all (locatable adv) qs
         | Inr (ms', h') \<Rightarrow> ms' = ms \<and> frame (length h0) (length h1) h h'
                \<and> list_all2 (relocated adv) qs (map (dump_qa h') ms)"
  using assms
proof (induction qs arbitrary: h0 ms h h1)
  case Nil
  then show ?case by (simp add: frame_refl)
next
  case (Cons q qs)
  obtain m ha where a: "load_qa q h0 = (m, ha)" by (cases "load_qa q h0")
  obtain ms' hb where b: "load_qas qs ha = (ms', hb)" by (cases "load_qas qs ha")
  from Cons.prems(1) a b have e: "ms = m # ms'" "h1 = hb" by simp_all
  obtain ys where ys: "ha = h0 @ ys" using load_qa_prefix[OF a] by blast
  obtain zs where zs: "hb = ha @ zs" using load_qas_prefix[OF b] by blast
  have lens: "length h0 \<le> length ha" "length ha \<le> length hb" by (simp_all add: ys zs)
  have P: "agree (length h0) (length hb) h hb" using Cons.prems(3) by (simp add: e)
  have "agree (length h0) (length ha) h hb"
    using P by (rule agree_sub) (simp_all add: zs)
  then have ag1: "agree (length h0) (length ha) h ha"
    unfolding zs by (rule agree_append[rotated]) simp
  have len1: "length ha \<le> length h" using Cons.prems(2) lens by (simp add: e)
  have ag2: "agree (length ha) (length hb) h hb"
    using P by (rule agree_sub) (simp_all add: ys)
  note step = qa_step_value[OF a len1 ag1, of adv]
  show ?case
  proof (cases "relocate_qa adv q")
    case (Inl err)
    then have "qa_step adv m h = Inl err" using step by simp
    moreover have "err = ValueError \<and> \<not> locatable adv q" using relocate_qa_Inl[OF Inl] .
    ultimately show ?thesis by (simp add: e)
  next
    case (Inr q')
    then obtain h' where st: "qa_step adv m h = Inr (m, h')"
      and fr: "frame (length h0) (length ha) h h'" and dq: "dump_qa h' m = q'"
      using step by auto
    have len2: "length hb \<le> length h'" using fr Cons.prems(2) by (simp add: frame_def e)
    have ag3: "agree (length ha) (length hb) h' hb" using frame_agree_after[OF fr ag2] .
    note ih = Cons.IH[OF b len2 ag3]
    show ?thesis
    proof (cases "qas_loop adv ms' h'")
      case (Inl err)
      then show ?thesis using ih st by (simp add: e)
    next
      case (Inr r)
      obtain ms'' h'' where r: "r = (ms'', h'')" by (cases r)
      from ih Inr r have i1: "ms'' = ms'" and fr2: "frame (length ha) (length hb) h' h''"
        and rel: "list_all2 (relocated adv) qs (map (dump_qa h'') ms')" by simp_all
      have "agree (length h0) (length ha) h'' h'" using frame_agree_before[OF fr2] .
      then have "dump_qa h'' m = dump_qa h' m" using dump_qa_agree[OF a] by simp
      then have "relocated adv q (dump_qa h'' m)"
        using dq \<open>relocate_qa adv q = Inr q'\<close> by (simp add: relocated_def)
      moreover have "frame (length h0) (length hb) h h''"
        using frame_trans[OF fr fr2 lens] .
      ultimately show ?thesis using Inr r st i1 rel by (simp add: e)
    qed
  qed
qed

subsection \<open>The loops over paragraphs and articles, on values\<close>

lemma load_paragraph_qas:
  "load_paragraph p h0 = (mp, h1) \<Longrightarrow> load_qas (qas p) h0 = (qas mp, h1)"
  by (auto simp: load_paragraph_def split: prod.splits)

lemma load_paragraph_prefix: "load_paragraph p h0 = (mp, h1) \<Longrightarrow> \<exists>ys. h1 = h0 @ ys"
  using load_paragraph_qas load_qas_prefix by blast

lemma load_paragraphs_prefix: "load_paragraphs ps h0 = (ms, h1) \<Longrightarrow> \<exists>ys. h1 = h0 @ ys"
proof (induction ps arbitrary: h0 ms h1)
  case Nil
  then show ?case by simp
next
  case (Cons p ps)
  obtain m ha where a: "load_paragraph p h0 = (m, ha)" by (cases "load_paragraph p h0")
  obtain ms' hb where b: "load_paragraphs ps ha = (ms', hb)" by (cases "load_paragraphs ps ha")
  from Cons.prems a b have "h1 = hb" by simp
  moreover obtain ys where "ha = h0 @ ys" using load_paragraph_prefix[OF a] by blast
  moreover obtain zs where "hb = ha @ zs" using Cons.IH[OF b] by blast
  ultimately show ?case by simp
qed

lemma dump_paragraph_agree:
  assumes "load_paragraph p h0 = (mp, h1)" and "qas m' = qas mp"
    and "agree (length h0) (length h1) h h'"
  shows "dump_paragraph h m' = dump_paragraph h' m'"
  using dump_qas_agree[OF load_paragraph_qas[OF assms(1)] assms(3)] assms(2)
  by (simp add: dump_paragraph_def)

lemma dump_paragraphs_agree:
  "load_paragraphs ps h0 = (mps, h1) \<Longrightarrow> list_all2 (\<lambda>m m'. qas m' = qas m) mps ms'
   \<Longrightarrow> agree (length h0) (length h1) h h'
   \<Longrightarrow> map (dump_paragraph h) ms' = map (dump_paragraph h') ms'"
proof (induction ps arbitrary: h0 mps h1 ms')
  case Nil
  then show ?case by simp
next
  case (Cons p ps)
  obtain m ha where a: "load_paragraph p h0 = (m, ha)" by (cases "load_paragraph p h0")
  obtain ms hb where b: "load_paragraphs ps ha = (ms, hb)" by (cases "load_paragraphs ps ha")
  from Cons.prems(1) a b have e: "mps = m # ms" "h1 = hb" by simp_all
  obtain m' rest where r: "ms' = m' # rest" "qas m' = qas m"
    "list_all2 (\<lambda>m m'. qas m' = qas m) ms rest"
    using Cons.prems(2) by (auto simp: e list_all2_Cons1)
  obtain ys where ys: "ha = h0 @ ys" using load_paragraph_prefix[OF a] by blast
  obtain zs where zs: "hb = ha @ zs" using load_paragraphs_prefix[OF b] by blast
  have P: "agree (length h0) (length hb) h h'" using Cons.prems(3) by (simp add: e)
  have "agree (length h0) (length ha) h h'" using P by (rule agree_sub) (simp_all add: zs)
  then have 1: "dump_paragraph h m' = dump_paragraph h' m'"
    using dump_paragraph_agree[OF a r(2)] by simp
  have "agree (length ha) (length hb) h h'" using P by (rule agree_sub) (simp_all add: ys)
  then have 2: "map (dump_paragraph h) rest = map (dump_paragraph h') rest"
    using Cons.IH[OF b r(3)] by simp
  show ?case using 1 2 r(1) by simp
qed

lemma paragraphs_loop_value:
  assumes "step_sound step good"
    and "load_paragraphs ps h0 = (mps, h1)" and "length h1 \<le> length h"
    and "agree (length h0) (length h1) h h1"
  shows "case paragraphs_loop step mps (h, g) of
           Inl e \<Rightarrow> \<not> list_all good ps
         | Inr (ms', (h', g')) \<Rightarrow>
             frame (length h0) (length h1) h h'
             \<and> list_all2 par_rel ps (map (dump_paragraph h') ms')
             \<and> list_all2 (\<lambda>m m'. qas m' = qas m) mps ms'"
  using assms(2-)
proof (induction ps arbitrary: h0 mps h g h1)
  case Nil
  then show ?case by (simp add: frame_refl)
next
  case (Cons p ps)
  obtain m ha where a: "load_paragraph p h0 = (m, ha)" by (cases "load_paragraph p h0")
  obtain ms hb where b: "load_paragraphs ps ha = (ms, hb)" by (cases "load_paragraphs ps ha")
  from Cons.prems(1) a b have e: "mps = m # ms" "h1 = hb" by simp_all
  obtain ys where ys: "ha = h0 @ ys" using load_paragraph_prefix[OF a] by blast
  obtain zs where zs: "hb = ha @ zs" using load_paragraphs_prefix[OF b] by blast
  have lens: "length h0 \<le> length ha" "length ha \<le> length hb" by (simp_all add: ys zs)
  have P: "agree (length h0) (length hb) h hb" using Cons.prems(3) by (simp add: e)
  have "agree (length h0) (length ha) h hb" using P by (rule agree_sub) (simp_all add: zs)
  then have ag1: "agree (length h0) (length ha) h ha"
    unfolding zs by (rule agree_append[rotated]) simp
  have len1: "length ha \<le> length h" using Cons.prems(2) lens by (simp add: e)
  have ag2: "agree (length ha) (length hb) h hb" using P by (rule agree_sub) (simp_all add: ys)
  have step: "case step m (h, g) of
           Inl e \<Rightarrow> \<not> good p
         | Inr (m', (h', g')) \<Rightarrow>
             qas m' = qas m \<and> frame (length h0) (length ha) h h'
             \<and> par_rel p (dump_paragraph h' m')"
    using assms(1) a len1 ag1 unfolding step_sound_def by blast
  show ?case
  proof (cases "step m (h, g)")
    case (Inl err)
    then show ?thesis using step by (simp add: e)
  next
    case (Inr r)
    obtain m' h' g' where r: "r = (m', (h', g'))" by (cases r) auto
    from step Inr r have q: "qas m' = qas m" and fr: "frame (length h0) (length ha) h h'"
      and pr: "par_rel p (dump_paragraph h' m')" by simp_all
    have len2: "length hb \<le> length h'" using fr Cons.prems(2) by (simp add: frame_def e)
    have ag3: "agree (length ha) (length hb) h' hb" using frame_agree_after[OF fr ag2] .
    note ih = Cons.IH[OF b len2 ag3, of g']
    show ?thesis
    proof (cases "paragraphs_loop step ms (h', g')")
      case (Inl err)
      then show ?thesis using ih Inr r by (simp add: e)
    next
      case (Inr r2)
      obtain ms'' h'' g'' where r2: "r2 = (ms'', (h'', g''))" by (cases r2) auto
      from ih Inr r2 have fr2: "frame (length ha) (length hb) h' h''"
        and rel: "list_all2 par_rel ps (map (dump_paragraph h'') ms'')"
        and qs: "list_all2 (\<lambda>m m'. qas m' = qas m) ms ms''" by simp_all
      have "agree (length h0) (length ha) h'' h'" using frame_agree_before[OF fr2] .
      then have "dump_paragraph h'' m' = dump_paragraph h' m'"
        using dump_paragraph_agree[OF a q] by simp
      then have "par_rel p (dump_paragraph h'' m')" using pr by simp
      moreover have "frame (length h0) (length hb) h h''"
        using frame_trans[OF fr fr2 lens] .
      ultimately show ?thesis
        using Inr r2 \<open>step m (h, g) = Inr r\<close> r rel qs q by (simp add: e)
    qed
  qed
qed

lemma load_article_paragraphs:
  "load_article a h0 = (ma, h1) \<Longrightarrow>
     load_paragraphs (paragraphs a) h0 = (paragraphs ma, h1) \<and> title ma = title a"
  by (auto simp: load_article_def split: prod.splits)

lemma load_article_prefix: "load_article a h0 = (ma, h1) \<Longrightarrow> \<exists>ys. h1 = h0 @ ys"
  using load_article_paragraphs load_paragraphs_prefix by blast

lemma load_articles_prefix: "load_articles as h0 = (ms, h1) \<Longrightarrow> \<exists>ys. h1 = h0 @ ys"
proof (induction as arbitrary: h0 ms h1)
  case Nil
  then show ?case by simp
next
  case (Cons a as)
  obtain m ha where a: "load_article a h0 = (m, ha)" by (cases "load_article a h0")
  obtain ms' hb where b: "load_articles as ha = (ms', hb)" by (cases "load_articles as ha")
  from Cons.prems a b have "h1 = hb" by simp
  moreover obtain ys where "ha = h0 @ ys" using load_article_prefix[OF a] by blast
  moreover obtain zs where "hb = ha @ zs" using Cons.IH[OF b] by blast
  ultimately show ?case by simp
qed

lemma articles_loop_value:
  assumes "step_sound step good"
    and "load_articles as h0 = (mas, h1)" and "length h1 \<le> length h"
    and "agree (length h0) (length h1) h h1"
  shows "case articles_loop step mas (h, g) of
           Inl e \<Rightarrow> \<not> list_all (\<lambda>a. list_all good (paragraphs a)) as
         | Inr (ms', (h', g')) \<Rightarrow>
             frame (length h0) (length h1) h h'
             \<and> list_all2 art_rel as (map (dump_article h') ms')"
  using assms(2-)
proof (induction as arbitrary: h0 mas h g h1)
  case Nil
  then show ?case by (simp add: frame_refl)
next
  case (Cons a as)
  obtain m ha where a: "load_article a h0 = (m, ha)" by (cases "load_article a h0")
  obtain ms hb where b: "load_articles as ha = (ms, hb)" by (cases "load_articles as ha")
  from Cons.prems(1) a b have e: "mas = m # ms" "h1 = hb" by simp_all
  have lp: "load_paragraphs (paragraphs a) h0 = (paragraphs m, ha)" and t: "title m = title a"
    using load_article_paragraphs[OF a] by simp_all
  obtain ys where ys: "ha = h0 @ ys" using load_article_prefix[OF a] by blast
  obtain zs where zs: "hb = ha @ zs" using load_articles_prefix[OF b] by blast
  have lens: "length h0 \<le> length ha" "length ha \<le> length hb" by (simp_all add: ys zs)
  have P: "agree (length h0) (length hb) h hb" using Cons.prems(3) by (simp add: e)
  have "agree (length h0) (length ha) h hb" using P by (rule agree_sub) (simp_all add: zs)
  then have ag1: "agree (length h0) (length ha) h ha"
    unfolding zs by (rule agree_append[rotated]) simp
  have len1: "length ha \<le> length h" using Cons.prems(2) lens by (simp add: e)
  have ag2: "agree (length ha) (length hb) h hb" using P by (rule agree_sub) (simp_all add: ys)
  note inner = paragraphs_loop_value[OF assms(1) lp len1 ag1, of g]
  show ?case
  proof (cases "paragraphs_loop step (paragraphs m) (h, g)")
    case (Inl err)
    then show ?thesis using inner by (simp add: e)
  next
    case (Inr r)
    obtain nps h' g' where r: "r = (nps, (h', g'))" by (cases r) auto
    from inner Inr r have fr: "frame (length h0) (length ha) h h'"
      and pr: "list_all2 par_rel (paragraphs a) (map (dump_paragraph h') nps)"
      and q: "list_all2 (\<lambda>m m'. qas m' = qas m) (paragraphs m) nps" by simp_all
    have len2: "length hb \<le> length h'" using fr Cons.prems(2) by (simp add: frame_def e)
    have ag3: "agree (length ha) (length hb) h' hb" using frame_agree_after[OF fr ag2] .
    note ih = Cons.IH[OF b len2 ag3, of g']
    show ?thesis
    proof (cases "articles_loop step ms (h', g')")
      case (Inl err)
      then show ?thesis using ih Inr r by (simp add: e)
    next
      case (Inr r2)
      obtain ms'' h'' g'' where r2: "r2 = (ms'', (h'', g''))" by (cases r2) auto
      from ih Inr r2 have fr2: "frame (length ha) (length hb) h' h''"
        and rel: "list_all2 art_rel as (map (dump_article h'') ms'')" by simp_all
      have "agree (length h0) (length ha) h'' h'" using frame_agree_before[OF fr2] .
      then have "map (dump_paragraph h'') nps = map (dump_paragraph h') nps"
        using dump_paragraphs_agree[OF lp q] by simp
      then have "art_rel a (dump_article h'' \<lparr>title = title m, paragraphs = nps\<rparr>)"
        using pr t by (simp add: art_rel_def dump_article_def del: map_eq_conv)
      moreover have "frame (length h0) (length hb) h h''"
        using frame_trans[OF fr fr2 lens] .
      ultimately show ?thesis
        using Inr r2 \<open>paragraphs_loop step (paragraphs m) (h, g) = Inr r\<close> r rel
        by (simp add: e)
    qed
  qed
qed

lemma process_squad_file_value:
  assumes "step_sound step good"
  shows "case process_squad_file step input g of
           Inl e \<Rightarrow> \<not> list_all (\<lambda>a. list_all good (paragraphs a)) (data input)
         | Inr r \<Rightarrow> version (output_file r) = ''v2.0''
                    \<and> list_all2 art_rel (data input) (data (output_file r))"
proof -
  obtain mas h1 where l: "load_articles (data input) [] = (mas, h1)"
    by (cases "load_articles (data input) []")
  have "agree (length ([]::heap)) (length h1) h1 h1" by (rule agree_refl)
  from articles_loop_value[OF assms l _ this, of g]
  show ?thesis using l
    by (auto simp: process_squad_file_def json_load_def json_dump_def split: sum.splits prod.splits)
qed

subsection \<open>The two paragraph steps\<close>

lemma arbitrary_sentences_nonempty: "arbitrary_sentences \<noteq> []"
  by (simp add: arbitrary_sentences_def)

lemma length_arbitrary_sentences: "length arbitrary_sentences = 91"
  by (simp add: arbitrary_sentences_def)

lemma generate_sentences_eq:
  "generate_sentences n g =
     Inr (map (\<lambda>k. arbitrary_sentences ! (g k mod length arbitrary_sentences)) [0..<n],
          (\<lambda>i. g (i + n)))"
proof (induction n arbitrary: g)
  case 0
  then show ?case by simp
next
  case (Suc n)
  have "generate_arbitrary_sentence g
        = Inr (arbitrary_sentences ! (g 0 mod length arbitrary_sentences), rng_tail g)"
    using arbitrary_sentences_nonempty
    by (simp add: generate_arbitrary_sentence_def random_choice_def)
  then show ?case
    using Suc[of "rng_tail g"] by (simp add: map_upt_Suc rng_tail_def del: upt_Suc)
qed

lemma str_contains_append: "str_contains s sub \<Longrightarrow> str_contains (s @ t) sub"
  unfolding str_contains_def str_find_None using occurs_at_append by blast

lemma locatable_append: "locatable s q \<Longrightarrow> locatable (s @ t) q"
  by (simp add: locatable_def str_contains_append)

lemma load_paragraph_context: "load_paragraph p h0 = (mp, h1) \<Longrightarrow> par_context mp = par_context p"
  by (auto simp: load_paragraph_def split: prod.splits)

lemma step_sound_generic:
  assumes L: "load_paragraph p h0 = (mp, h1)" and len: "length h1 \<le> length h"
    and ag: "agree (length h0) (length h1) h h1"
  shows "case qas_loop (par_context p @ '' '' @ sfx) (qas mp) h of
           Inl e \<Rightarrow> \<not> list_all (locatable (par_context p)) (qas p)
         | Inr (new_qas, h') \<Rightarrow>
             new_qas = qas mp \<and> frame (length h0) (length h1) h h'
             \<and> par_rel p (dump_paragraph h' \<lparr>par_context = par_context p @ '' '' @ sfx,
                                              qas = new_qas\<rparr>)"
proof -
  let ?adv = "par_context p @ '' '' @ sfx"
  note q = qas_loop_value[OF load_paragraph_qas[OF L] len ag, of ?adv]
  show ?thesis
  proof (cases "qas_loop ?adv (qas mp) h")
    case (Inl e)
    then have "\<not> list_all (locatable ?adv) (qas p)" using q by simp
    then have "\<not> list_all (locatable (par_context p)) (qas p)"
      using locatable_append[of "par_context p" _ "'' '' @ sfx"]
      by (auto simp: list_all_iff)
    then show ?thesis using Inl by simp
  next
    case (Inr r)
    obtain ms' h' where r: "r = (ms', h')" by (cases r)
    from q Inr r have "ms' = qas mp" and "frame (length h0) (length h1) h h'"
      and "list_all2 (relocated ?adv) (qas p) (map (dump_qa h') (qas mp))" by simp_all
    then show ?thesis using Inr r by (simp add: par_rel_def dump_paragraph_def)
  qed
qed

lemma step_shape:
  assumes L: "load_paragraph p h0 = (mp, h1)" and len: "length h1 \<le> length h"
    and ag: "agree (length h0) (length h1) h h1"
    and adv: "adv = par_context p @ '' '' @ sfx"
  shows "case (case qas_loop adv (qas mp) h of
                 Inl e \<Rightarrow> Inl e
               | Inr (new_qas, h1) \<Rightarrow> Inr (\<lparr>par_context = adv, qas = new_qas\<rparr>, (h1, g1))) of
           Inl e \<Rightarrow> \<not> list_all (locatable (par_context p)) (qas p)
         | Inr (m', (h', g')) \<Rightarrow>
             qas m' = qas mp \<and> frame (length h0) (length h1) h h'
             \<and> par_rel p (dump_paragraph h' m')"
proof (cases "qas_loop adv (qas mp) h")
  case (Inl e)
  then show ?thesis using step_sound_generic[OF L len ag, of sfx] by (simp add: adv)
next
  case (Inr r)
  obtain ms' h' where r: "r = (ms', h')" by (cases r)
  show ?thesis using step_sound_generic[OF L len ag, of sfx] Inr r by (auto simp: adv)
qed

lemma addany_step_sound:
  "step_sound (addany_step n) (\<lambda>p. list_all (locatable (par_context p)) (qas p))"
  unfolding step_sound_def
proof (intro allI impI)
  fix p h0 mp h1 h g
  assume L: "load_paragraph p h0 = (mp, h1)" and len: "length h1 \<le> length h"
    and ag: "agree (length h0) (length h1) h h1"
  note c = load_paragraph_context[OF L]
  show "case addany_step n mp (h, g) of
          Inl e \<Rightarrow> \<not> list_all (locatable (par_context p)) (qas p)
        | Inr (m', (h', g')) \<Rightarrow>
            qas m' = qas mp \<and> frame (length h0) (length h1) h h'
            \<and> par_rel p (dump_paragraph h' m')"
    unfolding addany_step_def
    by (simp only: generate_sentences_eq c Let_def prod.case sum.case)
       (rule step_shape[OF L len ag refl])
qed

lemma load_qas_questions: "load_qas qs h0 = (ms, h1) \<Longrightarrow> map question ms = map question qs"
proof (induction qs arbitrary: h0 ms h1)
  case Nil
  then show ?case by simp
next
  case (Cons q qs)
  obtain m ha where a: "load_qa q h0 = (m, ha)" by (cases "load_qa q h0")
  obtain ms' hb where b: "load_qas qs ha = (ms', hb)" by (cases "load_qas qs ha")
  from Cons.prems a b have e: "ms = m # ms'" by simp
  have "question m = question q" using a by (auto simp: load_qa_def)
  then show ?case using Cons.IH[OF b] e by simp
qed

lemma generate_adversarial_sentence_ok:
  assumes "qas_list \<noteq> []"
    and "\<forall>m \<in> set qas_list. key_words_of (nlp (question m)) \<noteq> []"
  shows "\<exists>s g'. generate_adversarial_sentence nlp qas_list h g = Inr (s, g')"
proof -
  let ?qa = "qas_list ! (g 0 mod length qas_list)"
  have c1: "random_choice qas_list g = Inr (?qa, rng_tail g)"
    using assms(1) by (simp add: random_choice_def)
  have "?qa \<in> set qas_list" using assms(1) by simp
  then have k: "key_words_of (nlp (question ?qa)) \<noteq> []" using assms(2) by blast
  then obtain kw g2 where c2: "random_choice (key_words_of (nlp (question ?qa))) (rng_tail g)
      = Inr (kw, g2)"
    by (simp add: random_choice_def)
  show ?thesis
    unfolding generate_adversarial_sentence_def c1 using c2 by (simp add: Let_def)
qed

lemma addsent_step_sound: "step_sound (addsent_step nlp) (addsent_good nlp)"
  unfolding step_sound_def
proof (intro allI impI)
  fix p h0 mp h1 h g
  assume L: "load_paragraph p h0 = (mp, h1)" and len: "length h1 \<le> length h"
    and ag: "agree (length h0) (length h1) h h1"
  note c = load_paragraph_context[OF L]
  have qq: "map question (qas mp) = map question (qas p)"
    using load_qas_questions[OF load_paragraph_qas[OF L]] .
  show "case addsent_step nlp mp (h, g) of
          Inl e \<Rightarrow> \<not> addsent_good nlp p
        | Inr (m', (h', g')) \<Rightarrow>
            qas m' = qas mp \<and> frame (length h0) (length h1) h h'
            \<and> par_rel p (dump_paragraph h' m')"
  proof (cases "generate_adversarial_sentence nlp (qas mp) h g")
    case (Inl e)
    have "\<not> addsent_good nlp p"
    proof
      assume good: "addsent_good nlp p"
      then have ne: "qas p \<noteq> []"
        and kw: "\<forall>q \<in> set (qas p). key_words_of (nlp (question q)) \<noteq> []"
        by (simp_all add: addsent_good_def)
      have "qas mp \<noteq> []" using ne qq by (metis map_is_Nil_conv)
      moreover have "\<forall>m \<in> set (qas mp). key_words_of (nlp (question m)) \<noteq> []"
      proof
        fix m assume "m \<in> set (qas mp)"
        then have "question m \<in> set (map question (qas mp))" by simp
        then have "question m \<in> set (map question (qas p))" by (simp only: qq)
        then obtain q where "q \<in> set (qas p)" and "question q = question m" by auto
        then show "key_words_of (nlp (question m)) \<noteq> []" using kw by metis
      qed
      ultimately show False
        using generate_adversarial_sentence_ok[of "qas mp" nlp h g] Inl by auto
    qed
    then show ?thesis using Inl by (simp add: addsent_step_def)
  next
    case (Inr r)
    obtain adv_sentence g1 where r: "r = (adv_sentence, g1)" by (cases r)
    have "case (case qas_loop (par_context p @ '' '' @ adv_sentence) (qas mp) h of
                 Inl e \<Rightarrow> Inl e
               | Inr (new_qas, h1) \<Rightarrow>
                   Inr (\<lparr>par_context = par_context p @ '' '' @ adv_sentence, qas = new_qas\<rparr>, (h1, g1))) of
           Inl e \<Rightarrow> \<not> addsent_good nlp p
         | Inr (m', (h', g')) \<Rightarrow>
             qas m' = qas mp \<and> frame (length h0) (length h1) h h'
             \<and> par_rel p (dump_paragraph h' m')"
      using step_shape[OF L len ag refl, of adv_sentence g1]
      by (auto simp: addsent_good_def split: sum.splits)
    then show ?thesis
      unfolding addsent_step_def by (simp only: Inr r c Let_def prod.case sum.case)
  qed
qed

lemma addsent_outcome:
  "case process_squad_file_addsent nlp input g of
     Inl e \<Rightarrow> \<not> list_all (\<lambda>a. list_all (addsent_good nlp) (paragraphs a)) (data input)
   | Inr r \<Rightarrow> version (output_file r) = ''v2.0''
                    \<and> list_all2 art_rel (data input) (data (output_file r))"
  unfolding process_squad_file_addsent_def
  by (rule process_squad_file_value[OF addsent_step_sound])

lemma addany_output:
  "case process_squad_file_addany ns input g of
     Inl e \<Rightarrow> \<not> list_all (\<lambda>a. list_all (\<lambda>p. list_all (locatable (par_context p)) (qas p)) (paragraphs a)) (data input)
   | Inr r \<Rightarrow> version (output_file r) = ''v2.0''
                    \<and> list_all2 art_rel (data input) (data (output_file r))"
  unfolding process_squad_file_addany_def
  by (rule process_squad_file_value[OF addany_step_sound])

lemma addsent_output:
  "process_squad_file_addsent nlp input g = Inr r \<Longrightarrow>
     version (output_file r) = ''v2.0'' \<and> list_all2 art_rel (data input) (data (output_file r))"
  using addsent_outcome[of nlp input g] by simp

subsection \<open>What every output satisfies\<close>

lemma py_slice_nat: "py_slice s (int i) (int i + int l) = take l (drop i s)"
proof (cases "i \<le> length s")
  case True
  have a: "(if int i < 0 then max 0 (int i + int (length s)) else min (int i) (int (length s))) = int i"
    using True by simp
  have b: "(if int i + int l < 0 then max 0 (int i + int l + int (length s))
            else min (int i + int l) (int (length s))) = int (min (i + l) (length s))"
    by simp
  have "take (min (i + l) (length s) - i) (drop i s) = take l (drop i s)"
  proof (cases "i + l \<le> length s")
    case True
    then show ?thesis by simp
  next
    case False
    then have "min (i + l) (length s) - i = length (drop i s)" by simp
    moreover have "length (drop i s) \<le> l" using False by simp
    ultimately show ?thesis by simp
  qed
  moreover have "nat (int (min (i + l) (length s)) - int i) = min (i + l) (length s) - i"
    by linarith
  ultimately show ?thesis
    unfolding py_slice_def Let_def a b by simp
next
  case False
  have a: "(if int i < 0 then max 0 (int i + int (length s)) else min (int i) (int (length s)))
           = int (length s)"
    using False by simp
  have b: "(if int i + int l < 0 then max 0 (int i + int l + int (length s))
            else min (int i + int l) (int (length s))) = int (length s)"
    using False by simp
  show ?thesis unfolding py_slice_def Let_def a b using False by simp
qed

lemma str_find_empty: "str_find s [] = Some 0"
  by (cases s) simp_all

lemma str_contains_empty: "str_contains s []"
  by (simp add: str_contains_def str_find_empty)

lemma relocated_cases:
  assumes "relocated adv q q'"
  obtains "answers q = []" and "q' = q"
  | i where "answers q \<noteq> []" and "str_find adv (answer_text (hd (answers q))) = Some i"
      and "q' = q\<lparr>answers := (hd (answers q))\<lparr>answer_start := int i\<rparr> # tl (answers q)\<rparr>"
proof (cases "answers q = []")
  case True
  then have "q' = q" using assms by (simp add: relocated_def relocate_qa_def)
  with True that(1) show ?thesis by blast
next
  case False
  then have r: "(case str_index adv (answer_text (hd (answers q))) of
           Inl e \<Rightarrow> Inl e
         | Inr i \<Rightarrow> Inr (q\<lparr>answers := (hd (answers q))\<lparr>answer_start := int i\<rparr> # tl (answers q)\<rparr>))
        = Inr q'"
    using assms by (simp add: relocated_def relocate_qa_def)
  show ?thesis
  proof (cases "str_find adv (answer_text (hd (answers q)))")
    case None
    then show ?thesis using r by (simp add: str_index_def)
  next
    case (Some i)
    then have "q' = q\<lparr>answers := (hd (answers q))\<lparr>answer_start := int i\<rparr> # tl (answers q)\<rparr>"
      using r by (simp add: str_index_def)
    with False Some that(2) show ?thesis by blast
  qed
qed

lemma relocated_first:
  assumes "relocated adv q q'" and "answers q' \<noteq> []"
  shows "answers q \<noteq> [] \<and> answer_text (hd (answers q')) = answer_text (hd (answers q))
         \<and> (\<exists>i. str_find adv (answer_text (hd (answers q))) = Some i
                  \<and> answer_start (hd (answers q')) = int i)"
  using assms(1)
proof (cases rule: relocated_cases)
  case 1
  then show ?thesis using assms(2) by simp
next
  case (2 i)
  then show ?thesis by simp
qed

lemma relocated_fields:
  assumes "relocated adv q q'"
  shows "question q' = question q \<and> qa_id q' = qa_id q \<and> is_impossible q' = is_impossible q
         \<and> length (answers q') = length (answers q)
         \<and> map answer_text (answers q') = map answer_text (answers q)
         \<and> tl (answers q') = tl (answers q)"
  using assms
proof (cases rule: relocated_cases)
  case 1
  then show ?thesis by simp
next
  case (2 i)
  have "map answer_text (answers q) = answer_text (hd (answers q)) # map answer_text (tl (answers q))"
    using 2(1) by (cases "answers q") simp_all
  moreover have "length (answers q) = Suc (length (tl (answers q)))"
    using 2(1) by (cases "answers q") simp_all
  ultimately show ?thesis using 2 by simp
qed

lemma list_all2_setD2: "list_all2 P xs ys \<Longrightarrow> y \<in> set ys \<Longrightarrow> \<exists>x \<in> set xs. P x y"
  by (induction rule: list_all2_induct) auto

lemma first_occurrence_find: "str_find s sub = Some i \<Longrightarrow> first_occurrence s sub (int i)"
  by (simp add: first_occurrence_def str_find_Some)

lemma output_qa_origin:
  assumes "list_all2 art_rel as as'" and "a' \<in> set as'" and "p' \<in> set (paragraphs a')"
    and "q' \<in> set (qas p')"
  shows "\<exists>q. relocated (par_context p') q q'"
proof -
  obtain a where "art_rel a a'" using list_all2_setD2[OF assms(1,2)] by blast
  then have "list_all2 par_rel (paragraphs a) (paragraphs a')" by (simp add: art_rel_def)
  from list_all2_setD2[OF this assms(3)] obtain p where "par_rel p p'" by blast
  then have "list_all2 (relocated (par_context p')) (qas p) (qas p')" by (simp add: par_rel_def)
  from list_all2_setD2[OF this assms(4)] show ?thesis by blast
qed

lemma output_first_occurrence:
  assumes "list_all2 art_rel as as'" and "a' \<in> set as'" and "p' \<in> set (paragraphs a')"
    and "q' \<in> set (qas p')" and "answers q' \<noteq> []"
  shows "first_occurrence (par_context p') (answer_text (hd (answers q')))
           (answer_start (hd (answers q')))"
proof -
  obtain q where "relocated (par_context p') q q'" using output_qa_origin[OF assms(1-4)] by blast
  from relocated_first[OF this assms(5)]
  obtain i where "str_find (par_context p') (answer_text (hd (answers q'))) = Some i"
    and "answer_start (hd (answers q')) = int i" by auto
  then show ?thesis using first_occurrence_find by simp
qed

lemma first_occurrence_slice:
  "first_occurrence s sub k \<Longrightarrow> py_slice s k (k + int (length sub)) = sub"
proof -
  assume f: "first_occurrence s sub k"
  then have k: "int (nat k) = k" and o: "take (length sub) (drop (nat k) s) = sub"
    by (simp_all add: first_occurrence_def occurs_at_def)
  show ?thesis using py_slice_nat[of s "nat k" "length sub"] unfolding k o .
qed

lemma output_containment:
  assumes "list_all2 art_rel (data c) (data c')"
  shows "context_containment c'"
  unfolding context_containment_def
proof (intro ballI impI)
  fix a p q
  assume "a \<in> set (data c')" "p \<in> set (paragraphs a)" "q \<in> set (qas p)" "answers q \<noteq> []"
  then have "first_occurrence (par_context p) (answer_text (hd (answers q)))
           (answer_start (hd (answers q)))"
    by (rule output_first_occurrence[OF assms])
  then show "py_slice (par_context p) (answer_start (hd (answers q)))
          (answer_start (hd (answers q)) + int (length (answer_text (hd (answers q)))))
        = answer_text (hd (answers q))"
    by (rule first_occurrence_slice)
qed

lemma answers_in_context_good:
  assumes "answers_in_context c"
  shows "list_all (\<lambda>a. list_all (\<lambda>p. list_all (locatable (par_context p)) (qas p)) (paragraphs a)) (data c)"
  unfolding list_all_iff locatable_def
proof (intro ballI impI)
  fix a p q assume "a \<in> set (data c)" "p \<in> set (paragraphs a)" "q \<in> set (qas p)" "answers q \<noteq> []"
  then show "str_contains (par_context p) (answer_text (hd (answers q)))"
    using assms str_contains_empty[of "par_context p"]
    by (cases "answer_text (hd (answers q)) = []") (auto simp: answers_in_context_def)
qed

lemma addany_total:
  assumes "answers_in_context c"
  shows "\<exists>r. process_squad_file_addany ns c g = Inr r \<and> version (output_file r) = ''v2.0''
              \<and> list_all2 art_rel (data c) (data (output_file r))"
  using addany_output[where ns = ns and input = c and g = g] answers_in_context_good[OF assms]
  by (cases "process_squad_file_addany ns c g") auto

lemma addsent_total:
  assumes "answers_in_context c" and "addsent_ready nlp c"
  shows "\<exists>r. process_squad_file_addsent nlp c g = Inr r"
proof -
  have "list_all (\<lambda>a. list_all (addsent_good nlp) (paragraphs a)) (data c)"
    using answers_in_context_good[OF assms(1)] assms(2)
    by (auto simp: list_all_iff addsent_good_def addsent_ready_def)
  then show ?thesis
    using addsent_outcome[of nlp c g] by (cases "process_squad_file_addsent nlp c g") auto
qed

subsection \<open>Appending to the context\<close>

lemma occurs_at_length: "occurs_at s sub i \<Longrightarrow> sub \<noteq> [] \<Longrightarrow> i + length sub \<le> length s"
proof -
  assume o: "occurs_at s sub i" and ne: "sub \<noteq> []"
  then have "length (take (length sub) (drop i s)) = length sub" by (simp add: occurs_at_def)
  then have "length sub \<le> length s - i" by simp
  moreover have "0 < length sub" using ne by simp
  ultimately show ?thesis by linarith
qed

lemma occurs_at_append_iff:
  "j + length sub \<le> length s \<Longrightarrow> occurs_at (s @ t) sub j = occurs_at s sub j"
  by (simp add: occurs_at_def)

lemma first_occurrence_unique:
  "first_occurrence s sub k \<Longrightarrow> first_occurrence s sub k' \<Longrightarrow> k = k'"
proof -
  assume a: "first_occurrence s sub k" and b: "first_occurrence s sub k'"
  have a1: "occurs_at s sub (nat k)" and a2: "\<forall>j<nat k. \<not> occurs_at s sub j" and a3: "0 \<le> k"
    using a unfolding first_occurrence_def by blast+
  have b1: "occurs_at s sub (nat k')" and b2: "\<forall>j<nat k'. \<not> occurs_at s sub j" and b3: "0 \<le> k'"
    using b unfolding first_occurrence_def by blast+
  have "\<not> nat k < nat k'" using a1 b2 by blast
  moreover have "\<not> nat k' < nat k" using b1 a2 by blast
  ultimately have "nat k = nat k'" by linarith
  then show ?thesis using a3 b3 by linarith
qed

lemma first_occurrence_le:
  "first_occurrence s sub k \<Longrightarrow> occurs_at s sub i \<Longrightarrow> k \<le> int i"
proof -
  assume a: "first_occurrence s sub k" and b: "occurs_at s sub i"
  have "\<forall>j<nat k. \<not> occurs_at s sub j"
    using a unfolding first_occurrence_def by blast
  then have "\<not> i < nat k" using b by blast
  then show ?thesis by linarith
qed

lemma str_find_append:
  assumes "occurs_at s sub i"
  shows "str_find (s @ t) sub = str_find s sub"
proof -
  obtain m where m: "str_find s sub = Some m"
    using assms str_find_None[of s sub] by (cases "str_find s sub") auto
  then have om: "occurs_at s sub m" and least: "\<forall>j<m. \<not> occurs_at s sub j"
    by (simp_all add: str_find_Some)
  have "occurs_at (s @ t) sub m" using om by (rule occurs_at_append)
  moreover have "\<forall>j<m. \<not> occurs_at (s @ t) sub j"
  proof (intro allI impI)
    fix j assume j: "j < m"
    show "\<not> occurs_at (s @ t) sub j"
    proof (cases "sub = []")
      case True
      then have "occurs_at s sub 0" by (simp add: occurs_at_def)
      then show ?thesis using least j by (cases m) auto
    next
      case False
      then have "m + length sub \<le> length s" using om occurs_at_length by blast
      then have "j + length sub \<le> length s" using j by simp
      then show ?thesis using occurs_at_append_iff least j by blast
    qed
  qed
  ultimately have "str_find (s @ t) sub = Some m" by (simp add: str_find_Some)
  then show ?thesis using m by simp
qed

lemma relocated_same_qa: "relocated adv q q' \<Longrightarrow> same_qa q q'"
  using relocated_fields[of adv q q'] by (simp add: same_qa_def)

lemma par_rel_offsets:
  assumes "par_rel p p'"
  shows "list_all2 (offset_relocated (par_context p)) (qas p) (qas p')"
proof -
  obtain t where t: "par_context p' = par_context p @ t"
    using assms by (auto simp: par_rel_def prefix_def)
  have "list_all2 (relocated (par_context p')) (qas p) (qas p')"
    using assms by (simp add: par_rel_def)
  moreover have "offset_relocated (par_context p) q q'" if r: "relocated (par_context p') q q'" for q q'
    unfolding offset_relocated_def
  proof (intro impI)
    let ?text = "answer_text (hd (answers q))"
    let ?s = "answer_start (hd (answers q))"
    assume h: "answers q \<noteq> [] \<and> 0 \<le> ?s \<and> occurs_at (par_context p) ?text (nat ?s)"
    then have ne: "answers q \<noteq> []" and nn: "0 \<le> ?s"
      and occ: "occurs_at (par_context p) ?text (nat ?s)" by simp_all
    from r obtain i where f: "str_find (par_context p') ?text = Some i"
      and q': "q' = q\<lparr>answers := (hd (answers q))\<lparr>answer_start := int i\<rparr> # tl (answers q)\<rparr>"
      using ne by (cases rule: relocated_cases) auto
    have "str_find (par_context p) ?text = Some i"
      using f str_find_append[OF occ, of t] by (simp add: t)
    then have fo: "first_occurrence (par_context p) ?text (int i)" by (rule first_occurrence_find)
    have st: "answer_start (hd (answers q')) = int i" and ne': "answers q' \<noteq> []"
      by (simp_all add: q')
    have le: "int i \<le> ?s" using first_occurrence_le[OF fo occ] nn by simp
    have eq: "first_occurrence (par_context p) ?text ?s \<longrightarrow> int i = ?s"
      using first_occurrence_unique[OF fo] by blast
    show "answers q' \<noteq> []
        \<and> first_occurrence (par_context p) ?text (answer_start (hd (answers q')))
        \<and> answer_start (hd (answers q')) \<le> ?s
        \<and> (first_occurrence (par_context p) ?text ?s \<longrightarrow> answer_start (hd (answers q')) = ?s)"
      using ne' fo le eq by (simp add: st)
  qed
  ultimately show ?thesis by (rule list_all2_mono)
qed

lemma par_rel_same:
  assumes "par_rel p p'"
  shows "length (qas p') = length (qas p) \<and> list_all2 same_qa (qas p) (qas p')"
proof -
  have r: "list_all2 (relocated (par_context p')) (qas p) (qas p')"
    using assms by (simp add: par_rel_def)
  then have "list_all2 same_qa (qas p) (qas p')"
    by (rule list_all2_mono) (rule relocated_same_qa)
  then show ?thesis using list_all2_lengthD[OF r] by simp
qed

lemma art_rel_preserved:
  assumes "list_all2 art_rel (data c) (data c')"
  shows "qapairs_preserved c c'"
  unfolding qapairs_preserved_def
  using assms
proof (rule list_all2_mono)
  fix a a' assume "art_rel a a'"
  then have "list_all2 par_rel (paragraphs a) (paragraphs a')" by (simp add: art_rel_def)
  then show "list_all2 (\<lambda>p p'. length (qas p') = length (qas p) \<and> list_all2 same_qa (qas p) (qas p'))
          (paragraphs a) (paragraphs a')"
    by (rule list_all2_mono) (rule par_rel_same)
qed

lemma art_rel_offsets:
  assumes "list_all2 art_rel (data c) (data c')"
  shows "offsets_relocated c c'"
  unfolding offsets_relocated_def
  using assms
proof (rule list_all2_mono)
  fix a a' assume "art_rel a a'"
  then have "list_all2 par_rel (paragraphs a) (paragraphs a')" by (simp add: art_rel_def)
  then show "list_all2 (\<lambda>p p'. list_all2 (offset_relocated (par_context p)) (qas p) (qas p'))
          (paragraphs a) (paragraphs a')"
    by (rule list_all2_mono) (rule par_rel_offsets)
qed

lemma art_rel_first_occurrences:
  assumes "list_all2 art_rel (data c) (data c')"
  shows "first_occurrences c'"
  unfolding first_occurrences_def
proof (intro ballI impI)
  fix a p q
  assume "a \<in> set (data c')" "p \<in> set (paragraphs a)" "q \<in> set (qas p)" "answers q \<noteq> []"
  then show "first_occurrence (par_context p) (answer_text (hd (answers q)))
           (answer_start (hd (answers q)))"
    by (rule output_first_occurrence[OF assms])
qed

subsection \<open>Aborted runs, and what the input shares with the output\<close>

lemma list_all2_setD1: "list_all2 P xs ys \<Longrightarrow> x \<in> set xs \<Longrightarrow> \<exists>y \<in> set ys. P x y"
  by (induction rule: list_all2_induct) auto

lemma qas_loop_unlocatable:
  assumes L: "load_qas qs h0 = (ms, h)" and q: "q \<in> set qs" and "\<not> locatable adv q"
  shows "qas_loop adv ms h = Inl ValueError"
proof (cases "qas_loop adv ms h")
  case (Inl e)
  then show ?thesis using qas_loop_value[OF L le_refl agree_refl, of adv] by simp
next
  case (Inr r)
  obtain ms' h' where r: "r = (ms', h')" by (cases r)
  have "list_all2 (relocated adv) qs (map (dump_qa h') ms)"
    using qas_loop_value[OF L le_refl agree_refl, of adv] Inr r by simp
  from list_all2_setD1[OF this q] obtain q' where "relocated adv q q'" by blast
  then have "locatable adv q" using relocate_qa_Inr by (simp add: relocated_def)
  then show ?thesis using assms(3) by simp
qed

text \<open>The loops hand on the question-answer objects they were given.\<close>

lemma qa_step_same: "qa_step adv m h = Inr (m', h') \<Longrightarrow> m' = m"
  by (auto simp: qa_step_def Let_def split: if_splits sum.splits)

lemma qas_loop_same: "qas_loop adv ms h = Inr (ms', h') \<Longrightarrow> ms' = ms"
proof (induction ms arbitrary: h ms' h')
  case Nil
  then show ?case by simp
next
  case (Cons m ms)
  from Cons.prems obtain m1 h1 where a: "qa_step adv m h = Inr (m1, h1)"
    by (cases "qa_step adv m h") (auto split: prod.splits)
  from Cons.prems a obtain ms1 h2 where b: "qas_loop adv ms h1 = Inr (ms1, h2)"
    by (cases "qas_loop adv ms h1") (auto split: prod.splits)
  from Cons.prems a b have "ms' = m1 # ms1" by simp
  then show ?case using qa_step_same[OF a] Cons.IH[OF b] by simp
qed

lemma addsent_step_same: "addsent_step nlp mp s = Inr (m', s') \<Longrightarrow> qas m' = qas mp"
  by (cases s) (auto simp: addsent_step_def Let_def split: sum.splits prod.splits dest: qas_loop_same)

lemma addany_step_same: "addany_step n mp s = Inr (m', s') \<Longrightarrow> qas m' = qas mp"
  by (cases s) (auto simp: addany_step_def Let_def split: sum.splits prod.splits dest: qas_loop_same)

lemma paragraphs_loop_same:
  assumes st: "\<And>mp s m' s'. step mp s = Inr (m', s') \<Longrightarrow> qas m' = qas mp"
  shows "paragraphs_loop step mps s = Inr (ms', s') \<Longrightarrow> map qas ms' = map qas mps"
proof (induction mps arbitrary: s ms' s')
  case Nil
  then show ?case by simp
next
  case (Cons m mps)
  from Cons.prems obtain m1 s1 where a: "step m s = Inr (m1, s1)"
    by (cases "step m s") (auto split: prod.splits)
  from Cons.prems a obtain ms1 s2 where b: "paragraphs_loop step mps s1 = Inr (ms1, s2)"
    by (cases "paragraphs_loop step mps s1") (auto split: prod.splits)
  from Cons.prems a b have "ms' = m1 # ms1" by simp
  then show ?case using st[OF a] Cons.IH[OF b] by simp
qed

lemma articles_loop_same:
  assumes st: "\<And>mp s m' s'. step mp s = Inr (m', s') \<Longrightarrow> qas m' = qas mp"
  shows "articles_loop step mas s = Inr (ms', s')
    \<Longrightarrow> map (\<lambda>a. map qas (paragraphs a)) ms' = map (\<lambda>a. map qas (paragraphs a)) mas"
proof (induction mas arbitrary: s ms' s')
  case Nil
  then show ?case by simp
next
  case (Cons m mas)
  from Cons.prems obtain ps1 s1 where a: "paragraphs_loop step (paragraphs m) s = Inr (ps1, s1)"
    by (cases "paragraphs_loop step (paragraphs m) s") (auto split: prod.splits)
  from Cons.prems a obtain ms1 s2 where b: "articles_loop step mas s1 = Inr (ms1, s2)"
    by (cases "articles_loop step mas s1") (auto split: prod.splits)
  from Cons.prems a b have "ms' = \<lparr>title = title m, paragraphs = ps1\<rparr> # ms1" by simp
  then show ?case using paragraphs_loop_same[OF st a] Cons.IH[OF b] by simp
qed

lemma all_qas_dump:
  "map (\<lambda>a. map qas (paragraphs a)) xs = map (\<lambda>a. map qas (paragraphs a)) ys
   \<Longrightarrow> all_qas (json_dump h \<lparr>version = v, data = xs\<rparr>) = all_qas (json_dump h \<lparr>version = w, data = ys\<rparr>)"
proof (induction xs arbitrary: ys)
  case Nil
  then show ?case by (simp add: all_qas_def json_dump_def)
next
  case (Cons x xs)
  then obtain y ys' where ys: "ys = y # ys'" by (cases ys) auto
  with Cons.prems have e: "map qas (paragraphs x) = map qas (paragraphs y)"
    and r: "map (\<lambda>a. map qas (paragraphs a)) xs = map (\<lambda>a. map qas (paragraphs a)) ys'" by simp_all
  have "map (\<lambda>p. map (dump_qa h) (qas p)) (paragraphs x)
        = map (map (dump_qa h)) (map qas (paragraphs x))" by simp
  also have "\<dots> = map (map (dump_qa h)) (map qas (paragraphs y))" by (simp only: e)
  also have "\<dots> = map (\<lambda>p. map (dump_qa h) (qas p)) (paragraphs y)" by simp
  finally have 1: "map (\<lambda>p. map (dump_qa h) (qas p)) (paragraphs x)
        = map (\<lambda>p. map (dump_qa h) (qas p)) (paragraphs y)" .
  have 2: "all_qas (json_dump h \<lparr>version = v, data = xs\<rparr>)
      = all_qas (json_dump h \<lparr>version = w, data = ys'\<rparr>)" using Cons.IH[OF r] .
  show ?case using 1 2
    by (simp add: ys all_qas_def json_dump_def dump_article_def dump_paragraph_def comp_def)
qed

lemma process_squad_file_shares:
  assumes st: "\<And>mp s m' s'. step mp s = Inr (m', s') \<Longrightarrow> qas m' = qas mp"
    and r: "process_squad_file step input g = Inr r"
  shows "all_qas (data_after r) = all_qas (output_file r)"
proof -
  obtain mas h1 where l: "load_articles (data input) [] = (mas, h1)"
    by (cases "load_articles (data input) []")
  from r l obtain new h' g' where a: "articles_loop step mas (h1, g) = Inr (new, (h', g'))"
    and o: "output_file r = json_dump h' \<lparr>version = ''v2.0'', data = new\<rparr>"
    and d: "data_after r = json_dump h' \<lparr>version = version input, data = mas\<rparr>"
    by (auto simp: process_squad_file_def json_load_def split: sum.splits prod.splits)
  have "map (\<lambda>a. map qas (paragraphs a)) mas = map (\<lambda>a. map qas (paragraphs a)) new"
    using articles_loop_same[OF st a] by simp
  then show ?thesis unfolding o d by (rule all_qas_dump)
qed

lemma input_shares_answers:
  assumes "process_squad_file_addsent nlp input g = Inr r
           \<or> process_squad_file_addany ns input g = Inr r"
  shows "all_qas (data_after r) = all_qas (output_file r)"
  using assms
proof (elim disjE)
  assume "process_squad_file_addsent nlp input g = Inr r"
  then have "process_squad_file (addsent_step nlp) input g = Inr r"
    by (simp add: process_squad_file_addsent_def)
  then show ?thesis by (rule process_squad_file_shares[rotated]) (rule addsent_step_same)
next
  assume "process_squad_file_addany ns input g = Inr r"
  then have "process_squad_file (addany_step (case ns of None \<Rightarrow> 1 | Some n \<Rightarrow> n)) input g = Inr r"
    by (simp add: process_squad_file_addany_def)
  then show ?thesis by (rule process_squad_file_shares[rotated]) (rule addany_step_same)
qed

subsection \<open>Key words\<close>

lemma key_words_of_eq:
  "key_words_of doc =
     (if \<exists>t \<in> set doc. pos_tag t = ''NOUN'' \<or> pos_tag t = ''VERB'' \<or> pos_tag t = ''ADJ''
      then map token_text
             (filter (\<lambda>t. pos_tag t = ''NOUN'' \<or> pos_tag t = ''VERB'' \<or> pos_tag t = ''ADJ'') doc)
      else map token_text (filter (\<lambda>t. pos_tag t \<noteq> ''PUNCT'') doc))"
proof -
  have e: "[token_text t. t \<leftarrow> doc, pos_tag t \<in> set [''NOUN'', ''VERB'', ''ADJ'']]
        = map token_text
            (filter (\<lambda>t. pos_tag t = ''NOUN'' \<or> pos_tag t = ''VERB'' \<or> pos_tag t = ''ADJ'') doc)"
    by (induction doc) simp_all
  have f: "[token_text t. t \<leftarrow> doc, pos_tag t \<noteq> ''PUNCT'']
        = map token_text (filter (\<lambda>t. pos_tag t \<noteq> ''PUNCT'') doc)"
    by (induction doc) simp_all
  show ?thesis unfolding key_words_of_def Let_def e f
    by (simp add: filter_empty_conv)
qed

lemma key_words_of_empty:
  "key_words_of doc = [] \<longleftrightarrow> (\<forall>t \<in> set doc. pos_tag t = ''PUNCT'')"
  unfolding key_words_of_eq by (auto simp: filter_empty_conv)

subsection \<open>Evaluation loops\<close>

lemma evaluate_qa_eq:
  "evaluate_qa E n c q results
   = results @ map (row_of E n) (filter (\<lambda>cq. scored (fst cq) (snd cq)) [(c, q)])"
  by (simp add: evaluate_qa_def scored_def row_of_def Let_def)

lemma evaluate_qas_eq:
  "evaluate_qas E n c qs results
   = results @ map (row_of E n) (filter (\<lambda>cq. scored (fst cq) (snd cq)) (map (\<lambda>q. (c, q)) qs))"
proof (induction qs arbitrary: results)
  case Nil
  then show ?case by simp
next
  case (Cons q qs)
  have "evaluate_qas E n c (q # qs) results
        = evaluate_qas E n c qs (evaluate_qa E n c q results)" by simp
  also have "\<dots> = evaluate_qa E n c q results
        @ map (row_of E n) (filter (\<lambda>cq. scored (fst cq) (snd cq)) (map (\<lambda>q. (c, q)) qs))"
    by (rule Cons.IH)
  also have "\<dots> = results
        @ map (row_of E n) (filter (\<lambda>cq. scored (fst cq) (snd cq)) (map (\<lambda>q. (c, q)) (q # qs)))"
    unfolding evaluate_qa_eq by simp
  finally show ?case .
qed

lemma evaluate_paragraphs_eq:
  "evaluate_paragraphs E n ps results
   = results @ map (row_of E n) (filter (\<lambda>cq. scored (fst cq) (snd cq))
       (concat (map (\<lambda>p. map (\<lambda>q. (par_context p, q)) (qas p)) ps)))"
proof (induction ps arbitrary: results)
  case Nil
  then show ?case by simp
next
  case (Cons p ps)
  show ?case
    unfolding evaluate_paragraphs.simps Cons.IH evaluate_qas_eq by simp
qed

lemma evaluate_articles_eq:
  "evaluate_articles E n as results
   = results @ map (row_of E n) (filter (\<lambda>cq. scored (fst cq) (snd cq)) (qa_occurrences as))"
proof (induction as arbitrary: results)
  case Nil
  then show ?case by (simp add: qa_occurrences_def)
next
  case (Cons a as)
  have q: "qa_occurrences (a # as)
      = concat (map (\<lambda>p. map (\<lambda>q. (par_context p, q)) (qas p)) (paragraphs a)) @ qa_occurrences as"
    by (simp add: qa_occurrences_def)
  show ?case
    unfolding evaluate_articles.simps Cons.IH evaluate_paragraphs_eq q by simp
qed

subsection \<open>The runs compute the transformation on values\<close>

lemma relocate_qas_Inr: "relocate_qas adv qs = Inr qs' \<Longrightarrow> list_all2 (relocated adv) qs qs'"
proof (induction qs arbitrary: qs')
  case Nil
  then show ?case by simp
next
  case (Cons q qs)
  from Cons.prems obtain q1 where a: "relocate_qa adv q = Inr q1"
    by (cases "relocate_qa adv q") auto
  from Cons.prems a obtain qs1 where b: "relocate_qas adv qs = Inr qs1"
    by (cases "relocate_qas adv qs") auto
  from Cons.prems a b have "qs' = q1 # qs1" by simp
  then show ?case using a Cons.IH[OF b] by (simp add: relocated_def)
qed

lemma relocate_qas_Inl:
  "relocate_qas adv qs = Inl e \<Longrightarrow> e = ValueError \<and> \<not> list_all (locatable adv) qs"
proof (induction qs)
  case Nil
  then show ?case by simp
next
  case (Cons q qs)
  show ?case
  proof (cases "relocate_qa adv q")
    case (Inl e')
    then have "e' = e" using Cons.prems by simp
    then show ?thesis using relocate_qa_Inl[OF Inl] by simp
  next
    case (Inr q1)
    then have "relocate_qas adv qs = Inl e" using Cons.prems
      by (cases "relocate_qas adv qs") auto
    then show ?thesis using Cons.IH by simp
  qed
qed

lemma list_all2_relocated_unique:
  "list_all2 (relocated adv) qs xs \<Longrightarrow> list_all2 (relocated adv) qs ys \<Longrightarrow> xs = ys"
proof (induction qs arbitrary: xs ys)
  case Nil
  then show ?case by simp
next
  case (Cons q qs)
  from Cons.prems(1) obtain x xs' where x: "xs = x # xs'" "relocated adv q x"
    "list_all2 (relocated adv) qs xs'" by (auto simp: list_all2_Cons1)
  from Cons.prems(2) obtain y ys' where y: "ys = y # ys'" "relocated adv q y"
    "list_all2 (relocated adv) qs ys'" by (auto simp: list_all2_Cons1)
  have "x = y" using x(2) y(2) by (simp add: relocated_def)
  then show ?case using Cons.IH[OF x(3) y(3)] x(1) y(1) by simp
qed

lemma list_all2_relocated_locatable:
  "list_all2 (relocated adv) qs xs \<Longrightarrow> list_all (locatable adv) qs"
proof (induction qs arbitrary: xs)
  case Nil
  then show ?case by simp
next
  case (Cons q qs)
  from Cons.prems obtain x xs' where x: "relocated adv q x"
    "list_all2 (relocated adv) qs xs'" by (auto simp: list_all2_Cons1)
  have "locatable adv q" using x(1) relocate_qa_Inr by (simp add: relocated_def)
  then show ?case using Cons.IH[OF x(2)] by simp
qed

lemma qas_loop_refines:
  assumes L: "load_qas qs h0 = (ms, h1)" and len: "length h1 \<le> length h"
    and ag: "agree (length h0) (length h1) h h1"
  shows "case relocate_qas adv qs of
           Inl e \<Rightarrow> qas_loop adv ms h = Inl e
         | Inr qs' \<Rightarrow> (\<exists>h'. qas_loop adv ms h = Inr (ms, h')
                          \<and> frame (length h0) (length h1) h h'
                          \<and> map (dump_qa h') ms = qs')"
proof (cases "relocate_qas adv qs")
  case (Inl e)
  then have e: "e = ValueError" and n: "\<not> list_all (locatable adv) qs"
    using relocate_qas_Inl by blast+
  have "qas_loop adv ms h = Inl ValueError"
  proof (cases "qas_loop adv ms h")
    case (Inl e')
    then show ?thesis using qas_loop_value[OF L len ag, of adv] by simp
  next
    case (Inr r)
    obtain ms' h' where r: "r = (ms', h')" by (cases r)
    have "list_all2 (relocated adv) qs (map (dump_qa h') ms)"
      using qas_loop_value[OF L len ag, of adv] Inr r by simp
    then show ?thesis using list_all2_relocated_locatable n by blast
  qed
  then show ?thesis using Inl e by simp
next
  case (Inr qs')
  then have rel: "list_all2 (relocated adv) qs qs'" by (rule relocate_qas_Inr)
  then have loc: "list_all (locatable adv) qs" by (rule list_all2_relocated_locatable)
  show ?thesis
  proof (cases "qas_loop adv ms h")
    case (Inl e')
    then show ?thesis using qas_loop_value[OF L len ag, of adv] loc by simp
  next
    case (Inr r)
    obtain ms' h' where r: "r = (ms', h')" by (cases r)
    from qas_loop_value[OF L len ag, of adv] Inr r
    have m: "ms' = ms" and fr: "frame (length h0) (length h1) h h'"
      and rel2: "list_all2 (relocated adv) qs (map (dump_qa h') ms)" by simp_all
    have "map (dump_qa h') ms = qs'" using list_all2_relocated_unique[OF rel2 rel] .
    then show ?thesis using Inr r m fr \<open>relocate_qas adv qs = Inr qs'\<close> by simp
  qed
qed

lemma dump_load_qas:
  "load_qas qs h0 = (ms, h1) \<Longrightarrow> agree (length h0) (length h1) h h1 \<Longrightarrow> map (dump_qa h) ms = qs"
proof (induction qs arbitrary: h0 ms h1)
  case Nil
  then show ?case by simp
next
  case (Cons q qs)
  obtain m ha where a: "load_qa q h0 = (m, ha)" by (cases "load_qa q h0")
  obtain ms' hb where b: "load_qas qs ha = (ms', hb)" by (cases "load_qas qs ha")
  from Cons.prems(1) a b have e: "ms = m # ms'" "h1 = hb" by simp_all
  obtain ys where ys: "ha = h0 @ ys" using load_qa_prefix[OF a] by blast
  obtain zs where zs: "hb = ha @ zs" using load_qas_prefix[OF b] by blast
  have P: "agree (length h0) (length hb) h hb" using Cons.prems(2) by (simp add: e)
  have "agree (length h0) (length ha) h hb"
    using P by (rule agree_sub) (simp_all add: zs)
  then have "agree (length h0) (length ha) h ha"
    unfolding zs by (rule agree_append[rotated]) simp
  then have 1: "dump_qa h m = q" using dump_load_qa[OF a] by simp
  have "agree (length ha) (length hb) h hb"
    using P by (rule agree_sub) (simp_all add: ys)
  then have 2: "map (dump_qa h) ms' = qs" using Cons.IH[OF b] by simp
  show ?case using 1 2 e by simp
qed

lemma random_choice_map:
  "random_choice (map f xs) g = map_sum id (\<lambda>xg. (f (fst xg), snd xg)) (random_choice xs g)"
  by (simp add: random_choice_def)

lemma generate_adversarial_sentence_dump:
  "generate_adversarial_sentence nlp ms h g = sentence_value nlp (map (dump_qa h) ms) g"
proof (cases "ms = []")
  case True
  then show ?thesis
    by (simp add: generate_adversarial_sentence_def sentence_value_def random_choice_def)
next
  case False
  let ?m = "ms ! (g 0 mod length ms)"
  have c1: "random_choice ms g = Inr (?m, rng_tail g)"
    using False by (simp add: random_choice_def)
  have c2: "random_choice (map (dump_qa h) ms) g = Inr (dump_qa h ?m, rng_tail g)"
    using False by (simp add: random_choice_def)
  have q: "question (dump_qa h ?m) = question ?m" by (simp add: dump_qa_def)
  have t: "(if answers (dump_qa h ?m) \<noteq> [] then answer_text (hd (answers (dump_qa h ?m))) else [])
         = (if answers ?m \<noteq> [] then answer_text (h ! hd (answers ?m)) else [])"
    by (cases "answers ?m") (simp_all add: dump_qa_def)
  show ?thesis
    unfolding generate_adversarial_sentence_def sentence_value_def c1 c2
    by (simp only: prod.case sum.case Let_def q t)
qed

lemma step_refines_shape:
  assumes L: "load_paragraph p h0 = (mp, h1)" and len: "length h1 \<le> length h"
    and ag: "agree (length h0) (length h1) h h1"
  shows "case (case relocate_qas adv (qas p) of
                 Inl e \<Rightarrow> Inl e
               | Inr new_qas \<Rightarrow> Inr (\<lparr>par_context = adv, qas = new_qas\<rparr>, g1)) of
           Inl e \<Rightarrow>
             (case qas_loop adv (qas mp) h of
                Inl e \<Rightarrow> Inl e
              | Inr (new_qas, h1) \<Rightarrow> Inr (\<lparr>par_context = adv, qas = new_qas\<rparr>, (h1, g1))) = Inl e
         | Inr (p', g') \<Rightarrow>
             (\<exists>m' h'.
                (case qas_loop adv (qas mp) h of
                   Inl e \<Rightarrow> Inl e
                 | Inr (new_qas, h1) \<Rightarrow> Inr (\<lparr>par_context = adv, qas = new_qas\<rparr>, (h1, g1)))
                  = Inr (m', (h', g'))
                \<and> qas m' = qas mp \<and> frame (length h0) (length h1) h h'
                \<and> dump_paragraph h' m' = p')"
proof (cases "relocate_qas adv (qas p)")
  case (Inl e)
  then have "qas_loop adv (qas mp) h = Inl e"
    using qas_loop_refines[OF load_paragraph_qas[OF L] len ag, of adv] by simp
  then show ?thesis using Inl by simp
next
  case (Inr qs')
  then obtain h' where q: "qas_loop adv (qas mp) h = Inr (qas mp, h')"
    and fr: "frame (length h0) (length h1) h h'" and d: "map (dump_qa h') (qas mp) = qs'"
    using qas_loop_refines[OF load_paragraph_qas[OF L] len ag, of adv] by auto
  have "dump_paragraph h' \<lparr>par_context = adv, qas = qas mp\<rparr> = \<lparr>par_context = adv, qas = qs'\<rparr>"
    using d by (simp add: dump_paragraph_def)
  then show ?thesis using Inr q fr by simp
qed

lemma addany_step_refines: "step_refines (addany_step n) (addany_value n)"
  unfolding step_refines_def
proof (intro allI impI)
  fix p h0 mp h1 h g
  assume L: "load_paragraph p h0 = (mp, h1)" and len: "length h1 \<le> length h"
    and ag: "agree (length h0) (length h1) h h1"
  note c = load_paragraph_context[OF L]
  show "case addany_value n p g of
          Inl e \<Rightarrow> addany_step n mp (h, g) = Inl e
        | Inr (p', g') \<Rightarrow>
            (\<exists>m' h'. addany_step n mp (h, g) = Inr (m', (h', g')) \<and> qas m' = qas mp
               \<and> frame (length h0) (length h1) h h' \<and> dump_paragraph h' m' = p')"
    unfolding addany_step_def addany_value_def
    by (simp only: generate_sentences_eq c Let_def prod.case sum.case)
       (rule step_refines_shape[OF L len ag])
qed

lemma addsent_step_refines: "step_refines (addsent_step nlp) (addsent_value nlp)"
  unfolding step_refines_def
proof (intro allI impI)
  fix p h0 mp h1 h g
  assume L: "load_paragraph p h0 = (mp, h1)" and len: "length h1 \<le> length h"
    and ag: "agree (length h0) (length h1) h h1"
  note c = load_paragraph_context[OF L]
  have s: "generate_adversarial_sentence nlp (qas mp) h g = sentence_value nlp (qas p) g"
    using generate_adversarial_sentence_dump[of nlp "qas mp" h g]
      dump_load_qas[OF load_paragraph_qas[OF L] ag] by simp
  show "case addsent_value nlp p g of
          Inl e \<Rightarrow> addsent_step nlp mp (h, g) = Inl e
        | Inr (p', g') \<Rightarrow>
            (\<exists>m' h'. addsent_step nlp mp (h, g) = Inr (m', (h', g')) \<and> qas m' = qas mp
               \<and> frame (length h0) (length h1) h h' \<and> dump_paragraph h' m' = p')"
  proof (cases "sentence_value nlp (qas p) g")
    case (Inl e)
    then show ?thesis by (simp add: addsent_step_def addsent_value_def s)
  next
    case (Inr r)
    obtain adv_sentence g1 where r: "r = (adv_sentence, g1)" by (cases r)
    show ?thesis
      unfolding addsent_step_def addsent_value_def
      by (simp only: s Inr r c Let_def prod.case sum.case)
         (rule step_refines_shape[OF L len ag])
  qed
qed

lemma paragraphs_loop_refines:
  assumes "step_refines step vs"
    and "load_paragraphs ps h0 = (mps, h1)" and "length h1 \<le> length h"
    and "agree (length h0) (length h1) h h1"
  shows "case transform_paragraphs vs ps g of
           Inl e \<Rightarrow> paragraphs_loop step mps (h, g) = Inl e
         | Inr (ps', g') \<Rightarrow>
             (\<exists>ms' h'. paragraphs_loop step mps (h, g) = Inr (ms', (h', g'))
                \<and> frame (length h0) (length h1) h h'
                \<and> map (dump_paragraph h') ms' = ps'
                \<and> list_all2 (\<lambda>m m'. qas m' = qas m) mps ms')"
  using assms(2-)
proof (induction ps arbitrary: h0 mps h g h1)
  case Nil
  then show ?case by (simp add: frame_refl)
next
  case (Cons p ps)
  obtain m ha where a: "load_paragraph p h0 = (m, ha)" by (cases "load_paragraph p h0")
  obtain ms hb where b: "load_paragraphs ps ha = (ms, hb)" by (cases "load_paragraphs ps ha")
  from Cons.prems(1) a b have e: "mps = m # ms" "h1 = hb" by simp_all
  obtain ys where ys: "ha = h0 @ ys" using load_paragraph_prefix[OF a] by blast
  obtain zs where zs: "hb = ha @ zs" using load_paragraphs_prefix[OF b] by blast
  have lens: "length h0 \<le> length ha" "length ha \<le> length hb" by (simp_all add: ys zs)
  have P: "agree (length h0) (length hb) h hb" using Cons.prems(3) by (simp add: e)
  have "agree (length h0) (length ha) h hb" using P by (rule agree_sub) (simp_all add: zs)
  then have ag1: "agree (length h0) (length ha) h ha"
    unfolding zs by (rule agree_append[rotated]) simp
  have len1: "length ha \<le> length h" using Cons.prems(2) lens by (simp add: e)
  have ag2: "agree (length ha) (length hb) h hb" using P by (rule agree_sub) (simp_all add: ys)
  have st: "case vs p g of
           Inl e \<Rightarrow> step m (h, g) = Inl e
         | Inr (p', g') \<Rightarrow>
             (\<exists>m' h'. step m (h, g) = Inr (m', (h', g')) \<and> qas m' = qas m
                \<and> frame (length h0) (length ha) h h' \<and> dump_paragraph h' m' = p')"
    using assms(1) a len1 ag1 unfolding step_refines_def by blast
  show ?case
  proof (cases "vs p g")
    case (Inl err)
    then show ?thesis using st by (simp add: e)
  next
    case (Inr r)
    obtain p' g1 where r: "r = (p', g1)" by (cases r)
    from st Inr r obtain m' h' where s1: "step m (h, g) = Inr (m', (h', g1))"
      and q: "qas m' = qas m" and fr: "frame (length h0) (length ha) h h'"
      and d: "dump_paragraph h' m' = p'" by auto
    have len2: "length hb \<le> length h'" using fr Cons.prems(2) by (simp add: frame_def e)
    have ag3: "agree (length ha) (length hb) h' hb" using frame_agree_after[OF fr ag2] .
    note ih = Cons.IH[OF b len2 ag3, of g1]
    show ?thesis
    proof (cases "transform_paragraphs vs ps g1")
      case (Inl err)
      then show ?thesis using ih Inr r s1 by (simp add: e)
    next
      case (Inr r2)
      obtain ps' g2 where r2: "r2 = (ps', g2)" by (cases r2)
      from ih Inr r2 obtain ms'' h'' where l2: "paragraphs_loop step ms (h', g1) = Inr (ms'', (h'', g2))"
        and fr2: "frame (length ha) (length hb) h' h''"
        and d2: "map (dump_paragraph h'') ms'' = ps'"
        and qs: "list_all2 (\<lambda>m m'. qas m' = qas m) ms ms''" by auto
      have "agree (length h0) (length ha) h'' h'" using frame_agree_before[OF fr2] .
      then have d1: "dump_paragraph h'' m' = p'"
        using dump_paragraph_agree[OF a q] d by simp
      have fr3: "frame (length h0) (length hb) h h''"
        using frame_trans[OF fr fr2 lens] .
      have "paragraphs_loop step (m # ms) (h, g) = Inr (m' # ms'', (h'', g2))"
        using s1 l2 by simp
      then show ?thesis
        using Inr r2 \<open>vs p g = Inr r\<close> r d1 d2 fr3 qs q by (simp add: e)
    qed
  qed
qed

lemma articles_loop_refines:
  assumes "step_refines step vs"
    and "load_articles as h0 = (mas, h1)" and "length h1 \<le> length h"
    and "agree (length h0) (length h1) h h1"
  shows "case transform_articles vs as g of
           Inl e \<Rightarrow> articles_loop step mas (h, g) = Inl e
         | Inr (as', g') \<Rightarrow>
             (\<exists>ms' h'. articles_loop step mas (h, g) = Inr (ms', (h', g'))
                \<and> frame (length h0) (length h1) h h'
                \<and> map (dump_article h') ms' = as')"
  using assms(2-)
proof (induction as arbitrary: h0 mas h g h1)
  case Nil
  then show ?case by (simp add: frame_refl)
next
  case (Cons a as)
  obtain m ha where a: "load_article a h0 = (m, ha)" by (cases "load_article a h0")
  obtain ms hb where b: "load_articles as ha = (ms, hb)" by (cases "load_articles as ha")
  from Cons.prems(1) a b have e: "mas = m # ms" "h1 = hb" by simp_all
  have lp: "load_paragraphs (paragraphs a) h0 = (paragraphs m, ha)" and t: "title m = title a"
    using load_article_paragraphs[OF a] by simp_all
  obtain ys where ys: "ha = h0 @ ys" using load_article_prefix[OF a] by blast
  obtain zs where zs: "hb = ha @ zs" using load_articles_prefix[OF b] by blast
  have lens: "length h0 \<le> length ha" "length ha \<le> length hb" by (simp_all add: ys zs)
  have P: "agree (length h0) (length hb) h hb" using Cons.prems(3) by (simp add: e)
  have "agree (length h0) (length ha) h hb" using P by (rule agree_sub) (simp_all add: zs)
  then have ag1: "agree (length h0) (length ha) h ha"
    unfolding zs by (rule agree_append[rotated]) simp
  have len1: "length ha \<le> length h" using Cons.prems(2) lens by (simp add: e)
  have ag2: "agree (length ha) (length hb) h hb" using P by (rule agree_sub) (simp_all add: ys)
  note inner = paragraphs_loop_refines[OF assms(1) lp len1 ag1, of g]
  show ?case
  proof (cases "transform_paragraphs vs (paragraphs a) g")
    case (Inl err)
    then show ?thesis using inner by (simp add: e)
  next
    case (Inr r)
    obtain ps' g1 where r: "r = (ps', g1)" by (cases r)
    from inner Inr r obtain nps h' where
      l1: "paragraphs_loop step (paragraphs m) (h, g) = Inr (nps, (h', g1))"
      and fr: "frame (length h0) (length ha) h h'"
      and d: "map (dump_paragraph h') nps = ps'"
      and q: "list_all2 (\<lambda>m m'. qas m' = qas m) (paragraphs m) nps" by auto
    have len2: "length hb \<le> length h'" using fr Cons.prems(2) by (simp add: frame_def e)
    have ag3: "agree (length ha) (length hb) h' hb" using frame_agree_after[OF fr ag2] .
    note ih = Cons.IH[OF b len2 ag3, of g1]
    show ?thesis
    proof (cases "transform_articles vs as g1")
      case (Inl err)
      then show ?thesis using ih Inr r l1 by (simp add: e)
    next
      case (Inr r2)
      obtain as' g2 where r2: "r2 = (as', g2)" by (cases r2)
      from ih Inr r2 obtain ms'' h'' where
        l2: "articles_loop step ms (h', g1) = Inr (ms'', (h'', g2))"
        and fr2: "frame (length ha) (length hb) h' h''"
        and d2: "map (dump_article h'') ms'' = as'" by auto
      have "agree (length h0) (length ha) h'' h'" using frame_agree_before[OF fr2] .
      then have "map (dump_paragraph h'') nps = map (dump_paragraph h') nps"
        using dump_paragraphs_agree[OF lp q] by simp
      then have d1: "dump_article h'' \<lparr>title = title m, paragraphs = nps\<rparr>
          = \<lparr>title = title a, paragraphs = ps'\<rparr>"
        using d t by (simp add: dump_article_def del: map_eq_conv)
      have fr3: "frame (length h0) (length hb) h h''"
        using frame_trans[OF fr fr2 lens] .
      have "articles_loop step (m # ms) (h, g)
          = Inr (\<lparr>title = title m, paragraphs = nps\<rparr> # ms'', (h'', g2))"
        using l1 l2 by simp
      then show ?thesis
        using Inr r2 \<open>transform_paragraphs vs (paragraphs a) g = Inr r\<close> r d1 d2 fr3
        by (simp add: e)
    qed
  qed
qed

lemma process_squad_file_refines:
  assumes "step_refines step vs"
  shows "map_sum id output_file (process_squad_file step input g) = transform_corpus vs input g"
proof -
  obtain mas h1 where l: "load_articles (data input) [] = (mas, h1)"
    by (cases "load_articles (data input) []")
  have ag: "agree (length ([]::heap)) (length h1) h1 h1" by (rule agree_refl)
  note t = articles_loop_refines[OF assms l le_refl ag, of g]
  show ?thesis
  proof (cases "transform_articles vs (data input) g")
    case (Inl e)
    then have "articles_loop step mas (h1, g) = Inl e" using t by simp
    then show ?thesis using Inl l
      by (simp add: process_squad_file_def json_load_def transform_corpus_def)
  next
    case (Inr r)
    obtain as' g' where r: "r = (as', g')" by (cases r)
    from t Inr r obtain ms' h' where a: "articles_loop step mas (h1, g) = Inr (ms', (h', g'))"
      and d: "map (dump_article h') ms' = as'" by auto
    show ?thesis using Inr r a d l
      by (simp add: process_squad_file_def json_load_def json_dump_def transform_corpus_def)
  qed
qed

lemma relocated_qa_relocated_in: "relocated adv q q' \<Longrightarrow> qa_relocated_in adv q q'"
proof -
  assume r: "relocated adv q q'"
  have s: "same_qa q q'" using r by (rule relocated_same_qa)
  have "answers q \<noteq> [] \<longrightarrow>
           str_contains adv (answer_text (hd (answers q)))
           \<and> first_occurrence adv (answer_text (hd (answers q))) (answer_start (hd (answers q')))"
  proof
    assume ne: "answers q \<noteq> []"
    from r obtain i where f: "str_find adv (answer_text (hd (answers q))) = Some i"
      and q': "q' = q\<lparr>answers := (hd (answers q))\<lparr>answer_start := int i\<rparr> # tl (answers q)\<rparr>"
      using ne by (cases rule: relocated_cases) auto
    have "answer_start (hd (answers q')) = int i" by (simp add: q')
    then show "str_contains adv (answer_text (hd (answers q)))
           \<and> first_occurrence adv (answer_text (hd (answers q))) (answer_start (hd (answers q')))"
      using f first_occurrence_find[OF f] by (simp add: str_contains_def)
  qed
  then show ?thesis using s by (simp add: qa_relocated_in_def)
qed

lemma art_rel_relocated_in_new_context:
  assumes "list_all2 art_rel (data c) (data c')"
  shows "relocated_in_new_context c c'"
  unfolding relocated_in_new_context_def
  using assms
proof (rule list_all2_mono)
  fix a a' assume ar: "art_rel a a'"
  then have "list_all2 par_rel (paragraphs a) (paragraphs a')" by (simp add: art_rel_def)
  then have "list_all2
            (\<lambda>p p'. prefix (par_context p @ '' '') (par_context p')
                     \<and> list_all2 (qa_relocated_in (par_context p')) (qas p) (qas p'))
            (paragraphs a) (paragraphs a')"
  proof (rule list_all2_mono)
    fix p p' assume pr: "par_rel p p'"
    then have "list_all2 (relocated (par_context p')) (qas p) (qas p')"
      by (simp add: par_rel_def)
    then have "list_all2 (qa_relocated_in (par_context p')) (qas p) (qas p')"
      by (rule list_all2_mono) (rule relocated_qa_relocated_in)
    then show "prefix (par_context p @ '' '') (par_context p')
                     \<and> list_all2 (qa_relocated_in (par_context p')) (qas p) (qas p')"
      using pr by (simp add: par_rel_def)
  qed
  then show "title a' = title a \<and>
          list_all2
            (\<lambda>p p'. prefix (par_context p @ '' '') (par_context p')
                     \<and> list_all2 (qa_relocated_in (par_context p')) (qas p) (qas p'))
            (paragraphs a) (paragraphs a')"
    using ar by (simp add: art_rel_def)
qed

lemma relocate_qas_returns:
  "(\<exists>qs'. relocate_qas adv qs = Inr qs') = list_all (locatable adv) qs"
proof
  assume "\<exists>qs'. relocate_qas adv qs = Inr qs'"
  then obtain qs' where "relocate_qas adv qs = Inr qs'" by blast
  then show "list_all (locatable adv) qs"
    using relocate_qas_Inr list_all2_relocated_locatable by blast
next
  assume l: "list_all (locatable adv) qs"
  show "\<exists>qs'. relocate_qas adv qs = Inr qs'"
  proof (cases "relocate_qas adv qs")
    case (Inl e)
    then show ?thesis using relocate_qas_Inl l by blast
  next
    case (Inr qs')
    then show ?thesis by blast
  qed
qed

lemma paragraphs_loop_abort:
  "paragraphs_loop step pars_before s = Inr (pars_done, s1) \<Longrightarrow> step par s1 = Inl e
   \<Longrightarrow> paragraphs_loop step (pars_before @ par # rest) s = Inl e"
proof (induction pars_before arbitrary: s pars_done)
  case Nil
  then show ?case by simp
next
  case (Cons p ps)
  from Cons.prems(1) obtain m sa where a: "step p s = Inr (m, sa)"
    by (cases "step p s") (auto split: prod.splits)
  from Cons.prems(1) a obtain ms where b: "paragraphs_loop step ps sa = Inr (ms, s1)"
    by (cases "paragraphs_loop step ps sa") (auto split: prod.splits)
  show ?case using a Cons.IH[OF b Cons.prems(2)] by simp
qed

lemma articles_loop_abort:
  "articles_loop step arts_before s0 = Inr (arts_done, s)
   \<Longrightarrow> paragraphs_loop step ps s = Inl e
   \<Longrightarrow> articles_loop step (arts_before @ \<lparr>title = t, paragraphs = ps\<rparr> # arts_rest) s0 = Inl e"
proof (induction arts_before arbitrary: s0 arts_done)
  case Nil
  then show ?case by simp
next
  case (Cons a as)
  from Cons.prems(1) obtain m sa where a: "paragraphs_loop step (paragraphs a) s0 = Inr (m, sa)"
    by (cases "paragraphs_loop step (paragraphs a) s0") (auto split: prod.splits)
  from Cons.prems(1) a obtain ms where b: "articles_loop step as sa = Inr (ms, s)"
    by (cases "articles_loop step as sa") (auto split: prod.splits)
  show ?case using a Cons.IH[OF b Cons.prems(2)] by simp
qed

section \<open>Properties of the notebooks\<close>

text \<open>
  Claim C1 (context containment). For every input corpus in which each non-empty first
  answer text occurs in its paragraph's context: whatever AddSent writes satisfies, for
  every question-answer pair with a non-empty answers list,
  \<open>context[answer_start : answer_start + len(text)] == text\<close> on the first answer, and
  AddSent does write an output when every paragraph has a pair and every question a key
  word; AddAny, for every number of sentences, does write an output, which satisfies
  the same.
\<close>

theorem context_containment_invariant:
  assumes "answers_in_context input"
  shows "(\<forall>r. process_squad_file_addsent nlp input g = Inr r \<longrightarrow>
              context_containment (output_file r))
         \<and> (addsent_ready nlp input \<longrightarrow>
              (\<exists>r. process_squad_file_addsent nlp input g = Inr r))
         \<and> (\<exists>r. process_squad_file_addany ns input g = Inr r \<and>
              context_containment (output_file r))"
proof (intro conjI impI)
  show "\<forall>r. process_squad_file_addsent nlp input g = Inr r \<longrightarrow>
              context_containment (output_file r)"
    using addsent_output output_containment by blast
next
  assume "addsent_ready nlp input"
  then show "\<exists>r. process_squad_file_addsent nlp input g = Inr r"
    using addsent_total[OF assms] by blast
next
  obtain r where "process_squad_file_addany ns input g = Inr r"
    and "list_all2 art_rel (data input) (data (output_file r))"
    using addany_total[OF assms] by blast
  then show "\<exists>r. process_squad_file_addany ns input g = Inr r \<and>
              context_containment (output_file r)"
    using output_containment by blast
qed

theorem context_containment_invariant_witness:
  "answers_in_context sky_corpus \<and> addsent_ready noun_tagger sky_corpus
   \<and> (\<exists>r. process_squad_file_addsent noun_tagger sky_corpus zero_rng = Inr r
          \<and> context_containment (output_file r))
   \<and> (\<exists>r. process_squad_file_addany (Some 2) sky_corpus zero_rng = Inr r
          \<and> context_containment (output_file r))"
proof -
  have h: "answers_in_context sky_corpus" by code_simp
  have k: "addsent_ready noun_tagger sky_corpus" by code_simp
  note t = context_containment_invariant[OF h, of noun_tagger zero_rng "Some 2"]
  from mp[OF conjunct1[OF conjunct2[OF t]] k]
  obtain r where r: "process_squad_file_addsent noun_tagger sky_corpus zero_rng = Inr r"
    by blast
  have a: "context_containment (output_file r)" using conjunct1[OF t] r by simp
  have "\<exists>r. process_squad_file_addsent noun_tagger sky_corpus zero_rng = Inr r
          \<and> context_containment (output_file r)"
    by (rule exI[of _ r], rule conjI[OF r a])
  then show ?thesis using h k conjunct2[OF conjunct2[OF t]] by (intro conjI)
qed

text \<open>
  Claim C2 (the input is left unchanged) fails on the code: \<open>qa.copy()\<close> is shallow, so
  the assignment to \<open>new_qa['answers'][0]['answer_start']\<close> writes to the answer
  dictionary of the loaded input. On the corpus below, the loaded input has
  \<open>answer_start = 2\<close> when the function returns, where the file had 5.
\<close>

theorem input_answer_start_overwritten:
  "map_sum id data_after (process_squad_file_addany None test_corpus zero_rng)
     = Inr \<lparr>version = ''v2.0'',
            data = [\<lparr>title = ''Test'',
               paragraphs =
                 [\<lparr>par_context = ''This is a test.'',
                   qas = [\<lparr>question = ''What is this?'', qa_id = Some ''t1'',
                           is_impossible = Some False,
                           answers = [\<lparr>answer_text = ''is'', answer_start = 2\<rparr>]\<rparr>]\<rparr>]\<rparr>]\<rparr>
   \<and> map_sum id data_after (process_squad_file_addany None test_corpus zero_rng)
     \<noteq> Inr test_corpus"
  by code_simp

text \<open>
  Claim C3, as amended (an answer text missing from the new context). For every
  paragraph and every pair with a non-empty answers list whose first answer text does not
  occur in the new context, \<open>str.index\<close> raises \<open>ValueError\<close> in the loop over the
  paragraph's pairs and nothing catches it: the loop, and with it the run, ends there.
  No pair is ever dropped: a run that completes has written every input pair, each with
  the offset of the first occurrence of its text in the new context.
\<close>

theorem unlocatable_answer_aborts:
  "(load_qas qs h0 = (ms, h) \<and> q \<in> set qs \<and> answers q \<noteq> []
      \<and> \<not> str_contains adv_context (answer_text (hd (answers q)))
    \<longrightarrow> qas_loop adv_context ms h = Inl ValueError)
   \<and> (process_squad_file_addsent nlp input g = Inr r
        \<or> process_squad_file_addany ns input g = Inr r
      \<longrightarrow> qapairs_preserved input (output_file r) \<and> first_occurrences (output_file r))"
proof (intro conjI impI)
  assume a: "load_qas qs h0 = (ms, h) \<and> q \<in> set qs \<and> answers q \<noteq> []
      \<and> \<not> str_contains adv_context (answer_text (hd (answers q)))"
  then have "\<not> locatable adv_context q" by (simp add: locatable_def)
  then show "qas_loop adv_context ms h = Inl ValueError"
    using qas_loop_unlocatable a by blast
next
  assume "process_squad_file_addsent nlp input g = Inr r
        \<or> process_squad_file_addany ns input g = Inr r"
  then have l: "list_all2 art_rel (data input) (data (output_file r))"
    using addsent_output[of nlp input g r] addany_output[where ns = ns and input = input and g = g]
    by auto
  show "qapairs_preserved input (output_file r)" using l by (rule art_rel_preserved)
  show "first_occurrences (output_file r)" using l by (rule art_rel_first_occurrences)
qed

theorem unlocatable_answer_aborts_witness:
  "qas_loop ''Paris is the capital of France. X''
      [\<lparr>question = ''What is the capital of Italy?'', qa_id = None, is_impossible = None,
        answers = [0]\<rparr>]
      [\<lparr>answer_text = ''Rome'', answer_start = 0\<rparr>] = Inl ValueError
   \<and> (\<exists>r. process_squad_file_addany (Some 2) sky_corpus zero_rng = Inr r
        \<and> qapairs_preserved sky_corpus (output_file r) \<and> first_occurrences (output_file r))"
proof -
  let ?q = "\<lparr>question = ''What is the capital of Italy?'', qa_id = None, is_impossible = None,
        answers = [\<lparr>answer_text = ''Rome'', answer_start = 0\<rparr>]\<rparr>"
  let ?m = "\<lparr>question = ''What is the capital of Italy?'', qa_id = None, is_impossible = None,
        answers = [0::nat]\<rparr>"
  have l: "load_qas [?q] [] = ([?m], [\<lparr>answer_text = ''Rome'', answer_start = 0\<rparr>])"
    by (simp add: load_qa_def)
  have n: "\<not> str_contains ''Paris is the capital of France. X'' (answer_text (hd (answers ?q)))"
    by code_simp
  note t = unlocatable_answer_aborts[where qs = "[?q]" and ?h0.0 = "[]" and ms = "[?m]"
      and h = "[\<lparr>answer_text = ''Rome'', answer_start = 0\<rparr>]" and q = ?q
      and adv_context = "''Paris is the capital of France. X''"
      and nlp = sky_tagger and input = sky_corpus and g = zero_rng and ns = "Some 2"]
  have 1: "qas_loop ''Paris is the capital of France. X'' [?m]
      [\<lparr>answer_text = ''Rome'', answer_start = 0\<rparr>] = Inl ValueError"
    using conjunct1[OF t] l n by simp
  have "\<not> isl (process_squad_file_addany (Some 2) sky_corpus zero_rng)" by code_simp
  then obtain r where r: "process_squad_file_addany (Some 2) sky_corpus zero_rng = Inr r"
    by (cases "process_squad_file_addany (Some 2) sky_corpus zero_rng") auto
  have 2: "qapairs_preserved sky_corpus (output_file r) \<and> first_occurrences (output_file r)"
    using conjunct2[OF t[where r = r]] r by simp
  have "\<exists>r. process_squad_file_addany (Some 2) sky_corpus zero_rng = Inr r
        \<and> qapairs_preserved sky_corpus (output_file r) \<and> first_occurrences (output_file r)"
    by (rule exI[of _ r], rule conjI[OF r 2])
  then show ?thesis using 1 by (intro conjI)
qed

theorem unlocatable_answer_counterexample:
  "process_squad_file_addany (Some 2) rome_corpus zero_rng = Inl ValueError
   \<and> process_squad_file_addsent noun_tagger rome_corpus zero_rng = Inl ValueError"
  by code_simp

text \<open>
  Claim C4 (relocation computes the first occurrence). In whatever either pipeline
  writes, every input pair has its output pair, and for every pair with answers the
  answer text occurs in the new context and the output \<open>answer_start\<close> is the smallest
  index at which it occurs there, whatever the appended sentences contain. The written
  output is, for every input and random source, the result of the transformation on
  values, which searches the new context; its loop over a paragraph's pairs returns
  exactly when every first answer text occurs in the new context.
\<close>

theorem relocation_first_occurrence:
  "(process_squad_file_addsent nlp input g = Inr r \<or>
    process_squad_file_addany ns input g = Inr r
    \<longrightarrow> relocated_in_new_context input (output_file r) \<and> first_occurrences (output_file r))
   \<and> map_sum id output_file (process_squad_file_addsent nlp input g)
       = transform_corpus (addsent_value nlp) input g
   \<and> map_sum id output_file (process_squad_file_addany ns input g)
       = transform_corpus (addany_value (case ns of None \<Rightarrow> 1 | Some n \<Rightarrow> n)) input g
   \<and> (\<exists>qs'. relocate_qas adv_context qs = Inr qs') = list_all (locatable adv_context) qs"
proof (intro conjI impI)
  assume "process_squad_file_addsent nlp input g = Inr r \<or>
    process_squad_file_addany ns input g = Inr r"
  then have l: "list_all2 art_rel (data input) (data (output_file r))"
    using addsent_output[of nlp input g r] addany_output[where ns = ns and input = input and g = g]
    by auto
  show "relocated_in_new_context input (output_file r)"
    using l by (rule art_rel_relocated_in_new_context)
  show "first_occurrences (output_file r)" using l by (rule art_rel_first_occurrences)
next
  show "map_sum id output_file (process_squad_file_addsent nlp input g)
       = transform_corpus (addsent_value nlp) input g"
    unfolding process_squad_file_addsent_def
    by (rule process_squad_file_refines[OF addsent_step_refines])
next
  show "map_sum id output_file (process_squad_file_addany ns input g)
       = transform_corpus (addany_value (case ns of None \<Rightarrow> 1 | Some n \<Rightarrow> n)) input g"
    unfolding process_squad_file_addany_def
    by (rule process_squad_file_refines[OF addany_step_refines])
next
  show "(\<exists>qs'. relocate_qas adv_context qs = Inr qs') = list_all (locatable adv_context) qs"
    by (rule relocate_qas_returns)
qed

theorem relocation_first_occurrence_witness:
  "(\<exists>r. process_squad_file_addsent noun_tagger rome_corpus three_rng = Inr r
       \<and> relocated_in_new_context rome_corpus (output_file r)
       \<and> first_occurrences (output_file r)
       \<and> contexts (output_file r) = [''Paris is the capital of France. However, What is the capital of Italy? is not related to Rome.'']
       \<and> answer_starts (output_file r) = [0, 89])
   \<and> (\<exists>r. process_squad_file_addsent sky_tagger sky_corpus zero_rng = Inr r
       \<and> relocated_in_new_context sky_corpus (output_file r)
       \<and> first_occurrences (output_file r)
       \<and> contexts (output_file r) = [''The sky is blue. However, color is not related to blue.'']
       \<and> answer_starts (output_file r) = [11])
   \<and> (\<exists>r. process_squad_file_addany (Some 2) test_corpus three_rng = Inr r
       \<and> relocated_in_new_context test_corpus (output_file r)
       \<and> first_occurrences (output_file r)
       \<and> contexts (output_file r) = [''This is a test. The local museum is hosting a special exhibition next month. The local museum is hosting a special exhibition next month.'']
       \<and> answer_starts (output_file r) = [2])"
proof -
  have a: "\<exists>r. process_squad_file_addsent noun_tagger rome_corpus three_rng = Inr r
       \<and> relocated_in_new_context rome_corpus (output_file r)
       \<and> first_occurrences (output_file r)
       \<and> contexts (output_file r) = [''Paris is the capital of France. However, What is the capital of Italy? is not related to Rome.'']
       \<and> answer_starts (output_file r) = [0, 89]"
  proof -
    note t = relocation_first_occurrence[where nlp = noun_tagger and input = rome_corpus
        and g = three_rng and ns = None and adv_context = "[]" and qs = "[]"]
    have e: "map_sum id output_file (process_squad_file_addsent noun_tagger rome_corpus three_rng)
        = transform_corpus (addsent_value noun_tagger) rome_corpus three_rng"
      by (rule conjunct1[OF conjunct2[OF t]])
    have n: "\<not> isl (transform_corpus (addsent_value noun_tagger) rome_corpus three_rng)"
      by code_simp
    have "\<not> isl (map_sum id output_file
        (process_squad_file_addsent noun_tagger rome_corpus three_rng))"
      unfolding e by (rule n)
    then obtain r where r: "process_squad_file_addsent noun_tagger rome_corpus three_rng = Inr r"
      by (cases "process_squad_file_addsent noun_tagger rome_corpus three_rng") auto
    have p: "relocated_in_new_context rome_corpus (output_file r)
        \<and> first_occurrences (output_file r)"
      by (rule mp[OF conjunct1[OF t[where r = r]] disjI1[OF r]])
    have o: "transform_corpus (addsent_value noun_tagger) rome_corpus three_rng
        = Inr (output_file r)"
      using e unfolding r by (simp only: map_sum.simps id_apply)
    have "map_sum id contexts (transform_corpus (addsent_value noun_tagger) rome_corpus three_rng)
        = Inr [''Paris is the capital of France. However, What is the capital of Italy? is not related to Rome.'']"
      by code_simp
    then have v: "contexts (output_file r) = [''Paris is the capital of France. However, What is the capital of Italy? is not related to Rome.'']"
      unfolding o by (simp only: map_sum.simps id_apply sum.inject)
    have "map_sum id answer_starts (transform_corpus (addsent_value noun_tagger) rome_corpus three_rng)
        = Inr [0, 89]"
      by code_simp
    then have w: "answer_starts (output_file r) = [0, 89]"
      unfolding o by (simp only: map_sum.simps id_apply sum.inject)
    show ?thesis
      by (rule exI[of _ r],
          rule conjI[OF r conjI[OF conjunct1[OF p] conjI[OF conjunct2[OF p] conjI[OF v w]]]])
  qed
  have b: "\<exists>r. process_squad_file_addsent sky_tagger sky_corpus zero_rng = Inr r
       \<and> relocated_in_new_context sky_corpus (output_file r)
       \<and> first_occurrences (output_file r)
       \<and> contexts (output_file r) = [''The sky is blue. However, color is not related to blue.'']
       \<and> answer_starts (output_file r) = [11]"
  proof -
    note t = relocation_first_occurrence[where nlp = sky_tagger and input = sky_corpus
        and g = zero_rng and ns = None and adv_context = "[]" and qs = "[]"]
    have "\<not> isl (process_squad_file_addsent sky_tagger sky_corpus zero_rng)" by code_simp
    then obtain r where r: "process_squad_file_addsent sky_tagger sky_corpus zero_rng = Inr r"
      by (cases "process_squad_file_addsent sky_tagger sky_corpus zero_rng") auto
    have p: "relocated_in_new_context sky_corpus (output_file r)
        \<and> first_occurrences (output_file r)"
      by (rule mp[OF conjunct1[OF t[where r = r]] disjI1[OF r]])
    have "map_sum id (\<lambda>r. contexts (output_file r))
          (process_squad_file_addsent sky_tagger sky_corpus zero_rng)
        = Inr [''The sky is blue. However, color is not related to blue.'']"
      by code_simp
    then have v: "contexts (output_file r) = [''The sky is blue. However, color is not related to blue.'']"
      unfolding r by (simp only: map_sum.simps id_apply sum.inject)
    have "map_sum id (\<lambda>r. answer_starts (output_file r))
          (process_squad_file_addsent sky_tagger sky_corpus zero_rng) = Inr [11]"
      by code_simp
    then have w: "answer_starts (output_file r) = [11]"
      unfolding r by (simp only: map_sum.simps id_apply sum.inject)
    show ?thesis
      by (rule exI[of _ r],
          rule conjI[OF r conjI[OF conjunct1[OF p] conjI[OF conjunct2[OF p] conjI[OF v w]]]])
  qed
  have c: "\<exists>r. process_squad_file_addany (Some 2) test_corpus three_rng = Inr r
       \<and> relocated_in_new_context test_corpus (output_file r)
       \<and> first_occurrences (output_file r)
       \<and> contexts (output_file r) = [''This is a test. The local museum is hosting a special exhibition next month. The local museum is hosting a special exhibition next month.'']
       \<and> answer_starts (output_file r) = [2]"
  proof -
    note t = relocation_first_occurrence[where nlp = sky_tagger and input = test_corpus
        and g = three_rng and ns = "Some 2" and adv_context = "[]" and qs = "[]"]
    have "\<not> isl (process_squad_file_addany (Some 2) test_corpus three_rng)" by code_simp
    then obtain r where r: "process_squad_file_addany (Some 2) test_corpus three_rng = Inr r"
      by (cases "process_squad_file_addany (Some 2) test_corpus three_rng") auto
    have p: "relocated_in_new_context test_corpus (output_file r)
        \<and> first_occurrences (output_file r)"
      by (rule mp[OF conjunct1[OF t[where r = r]] disjI2[OF r]])
    have "map_sum id (\<lambda>r. contexts (output_file r))
          (process_squad_file_addany (Some 2) test_corpus three_rng)
        = Inr [''This is a test. The local museum is hosting a special exhibition next month. The local museum is hosting a special exhibition next month.'']"
      by code_simp
    then have v: "contexts (output_file r) = [''This is a test. The local museum is hosting a special exhibition next month. The local museum is hosting a special exhibition next month.'']"
      unfolding r by (simp only: map_sum.simps id_apply sum.inject)
    have "map_sum id (\<lambda>r. answer_starts (output_file r))
          (process_squad_file_addany (Some 2) test_corpus three_rng) = Inr [2]"
      by code_simp
    then have w: "answer_starts (output_file r) = [2]"
      unfolding r by (simp only: map_sum.simps id_apply sum.inject)
    show ?thesis
      by (rule exI[of _ r],
          rule conjI[OF r conjI[OF conjunct1[OF p] conjI[OF conjunct2[OF p] conjI[OF v w]]]])
  qed
  show ?thesis by (rule conjI[OF a conjI[OF b c]])
qed

text \<open>
  Claim C5, as amended (AddAny). The paragraph step draws \<open>num_sentences\<close> sentences
  from the fixed pool, each by a draw of its own from the whole pool, so that a sentence
  can come more than once and every choice of \<open>num_sentences\<close> pool sentences is the
  result for some random source; the new context is the original context, a space, and
  the drawn sentences joined by spaces. A call that omits \<open>num_sentences\<close> runs with 1
  sentence; the notebook's own call runs with 2.
\<close>

theorem addany_appends_drawn_sentences:
  "generate_sentences n g =
     Inr (map (\<lambda>k. arbitrary_sentences ! (g k mod length arbitrary_sentences)) [0..<n],
          (\<lambda>i. g (i + n)))
   \<and> (addany_step n par (h, g) = Inr (new_paragraph, s') \<longrightarrow>
        par_context new_paragraph =
          par_context par @ '' '' @
          str_join '' '' (map (\<lambda>k. arbitrary_sentences ! (g k mod length arbitrary_sentences)) [0..<n]))
   \<and> ((\<forall>j \<in> set js. j < length arbitrary_sentences) \<longrightarrow>
        (\<exists>g'. map_sum id fst (generate_sentences (length js) g')
               = Inr (map (\<lambda>j. arbitrary_sentences ! j) js)))
   \<and> process_squad_file_addany None = process_squad_file (addany_step 1)
   \<and> create_data_set_addany = process_squad_file (addany_step 2)"
proof (intro conjI impI)
  show "generate_sentences n g =
     Inr (map (\<lambda>k. arbitrary_sentences ! (g k mod length arbitrary_sentences)) [0..<n],
          (\<lambda>i. g (i + n)))"
    by (rule generate_sentences_eq)
next
  assume "addany_step n par (h, g) = Inr (new_paragraph, s')"
  then show "par_context new_paragraph =
          par_context par @ '' '' @
          str_join '' '' (map (\<lambda>k. arbitrary_sentences ! (g k mod length arbitrary_sentences)) [0..<n])"
    by (auto simp: addany_step_def generate_sentences_eq Let_def split: sum.splits prod.splits)
next
  assume a: "\<forall>j \<in> set js. j < length arbitrary_sentences"
  have "map (\<lambda>k. arbitrary_sentences ! ((\<lambda>k. js ! k) k mod length arbitrary_sentences)) [0..<length js]
        = map (\<lambda>j. arbitrary_sentences ! j) js"
  proof (rule nth_equalityI)
    show "length (map (\<lambda>k. arbitrary_sentences ! ((\<lambda>k. js ! k) k mod length arbitrary_sentences))
            [0..<length js]) = length (map (\<lambda>j. arbitrary_sentences ! j) js)" by simp
  next
    fix i
    assume "i < length (map (\<lambda>k. arbitrary_sentences ! ((\<lambda>k. js ! k) k mod length arbitrary_sentences))
            [0..<length js])"
    then have i: "i < length js" by simp
    then have "js ! i < length arbitrary_sentences" using a by simp
    then show "map (\<lambda>k. arbitrary_sentences ! ((\<lambda>k. js ! k) k mod length arbitrary_sentences))
            [0..<length js] ! i = map (\<lambda>j. arbitrary_sentences ! j) js ! i"
      using i by simp
  qed
  then have "map_sum id fst (generate_sentences (length js) (\<lambda>k. js ! k))
               = Inr (map (\<lambda>j. arbitrary_sentences ! j) js)"
    unfolding generate_sentences_eq by simp
  then show "\<exists>g'. map_sum id fst (generate_sentences (length js) g')
               = Inr (map (\<lambda>j. arbitrary_sentences ! j) js)" by blast
next
  show "process_squad_file_addany None = process_squad_file (addany_step 1)"
    by (simp add: process_squad_file_addany_def)
next
  show "create_data_set_addany = process_squad_file (addany_step 2)"
    by (simp add: create_data_set_addany_def process_squad_file_addany_def)
qed

theorem addany_appends_drawn_sentences_witness:
  "(\<exists>new_paragraph s'.
      addany_step 2 \<lparr>par_context = ''Paris is the capital of France.'', qas = []\<rparr> ([], three_rng)
        = Inr (new_paragraph, s')
      \<and> par_context new_paragraph = ''Paris is the capital of France. The local museum is hosting a special exhibition next month. The local museum is hosting a special exhibition next month.'')
   \<and> (\<exists>g'. map_sum id fst (generate_sentences 2 g')
            = Inr [''The weather was unusually warm that day.'',
                   ''The weather was unusually warm that day.''])"
proof -
  let ?p = "\<lparr>par_context = ''Paris is the capital of France.'', qas = []::addr qa list\<rparr>"
  have "\<not> isl (addany_step 2 ?p ([], three_rng))" by code_simp
  then obtain np s' where r: "addany_step 2 ?p ([], three_rng) = Inr (np, s')"
    by (cases "addany_step 2 ?p ([], three_rng)") auto
  note t = addany_appends_drawn_sentences[where n = 2 and g = three_rng and par = ?p
      and h = "[]" and new_paragraph = np and s' = s' and js = "[0, 0]"]
  have v: "par_context ?p @ '' '' @
          str_join '' '' (map (\<lambda>k. arbitrary_sentences ! (three_rng k mod length arbitrary_sentences)) [0..<2])
        = ''Paris is the capital of France. The local museum is hosting a special exhibition next month. The local museum is hosting a special exhibition next month.''"
    by code_simp
  have c: "par_context np = ''Paris is the capital of France. The local museum is hosting a special exhibition next month. The local museum is hosting a special exhibition next month.''"
    using conjunct1[OF conjunct2[OF t]] r v by simp
  have 1: "\<exists>new_paragraph s'.
      addany_step 2 ?p ([], three_rng) = Inr (new_paragraph, s')
      \<and> par_context new_paragraph = ''Paris is the capital of France. The local museum is hosting a special exhibition next month. The local museum is hosting a special exhibition next month.''"
    by (rule exI[of _ np], rule exI[of _ s'], rule conjI[OF r c])
  have b: "\<forall>j \<in> set [0, 0]. j < length arbitrary_sentences"
    by (simp add: length_arbitrary_sentences)
  have l: "length [0::nat, 0] = 2" by simp
  have w: "map (\<lambda>j. arbitrary_sentences ! j) [0, 0]
        = [''The weather was unusually warm that day.'',
           ''The weather was unusually warm that day.'']"
    by code_simp
  have 2: "\<exists>g'. map_sum id fst (generate_sentences 2 g')
            = Inr [''The weather was unusually warm that day.'',
                   ''The weather was unusually warm that day.'']"
    using mp[OF conjunct1[OF conjunct2[OF conjunct2[OF t]]] b] unfolding w l .
  show ?thesis using 1 2 by (rule conjI)
qed

theorem addany_default_counterexample:
  "map_sum id output_file (process_squad_file_addany None sky_corpus zero_rng)
     = Inr \<lparr>version = ''v2.0'',
            data = [\<lparr>title = ''Sky'',
               paragraphs =
                 [\<lparr>par_context = ''The sky is blue. The weather was unusually warm that day.'',
                   qas = [\<lparr>question = ''What color is the sky?'', qa_id = Some ''q1'',
                           is_impossible = Some False,
                           answers = [\<lparr>answer_text = ''blue'', answer_start = 11\<rparr>]\<rparr>,
                          \<lparr>question = ''Who painted the sky?'', qa_id = Some ''q2'',
                           is_impossible = Some True, answers = []\<rparr>]\<rparr>]\<rparr>]\<rparr>"
  by code_simp



text \<open>
  Claim C7, as amended (offsets under appending). For every pair with answers whose
  \<open>answer_start\<close> points at an occurrence of the answer text in the original context,
  the output \<open>answer_start\<close> is the first occurrence of the text in the original
  context: never larger than the input offset, and equal to it if the input offset was
  itself the first occurrence.
\<close>

theorem append_relocates_to_first_occurrence:
  "(process_squad_file_addsent nlp input g = Inr r \<or>
    process_squad_file_addany ns input g = Inr r)
   \<Longrightarrow> offsets_relocated input (output_file r)"
proof -
  assume "process_squad_file_addsent nlp input g = Inr r \<or>
    process_squad_file_addany ns input g = Inr r"
  then have "list_all2 art_rel (data input) (data (output_file r))"
    using addsent_output[of nlp input g r] addany_output[where ns = ns and input = input and g = g] by auto
  then show ?thesis by (rule art_rel_offsets)
qed

theorem append_relocates_to_first_occurrence_witness:
  "first_occurrence ''The sky is blue.'' ''blue'' 11
   \<and> answer_starts sky_corpus = [11]
   \<and> (\<exists>r. process_squad_file_addsent sky_tagger sky_corpus zero_rng = Inr r
          \<and> offsets_relocated sky_corpus (output_file r)
          \<and> answer_starts (output_file r) = [11])"
proof -
  have f: "first_occurrence ''The sky is blue.'' ''blue'' 11" by code_simp
  have i: "answer_starts sky_corpus = [11]" by code_simp
  have e: "\<not> isl (process_squad_file_addsent sky_tagger sky_corpus zero_rng)" by code_simp
  then obtain r where r: "process_squad_file_addsent sky_tagger sky_corpus zero_rng = Inr r"
    by (cases "process_squad_file_addsent sky_tagger sky_corpus zero_rng") auto
  have "map_sum id (\<lambda>r. answer_starts (output_file r))
          (process_squad_file_addsent sky_tagger sky_corpus zero_rng) = Inr [11]"
    by code_simp
  then have v: "answer_starts (output_file r) = [11]"
    unfolding r by (simp only: map_sum.simps id_apply sum.inject)
  have o: "offsets_relocated sky_corpus (output_file r)"
    by (rule append_relocates_to_first_occurrence[where nlp = sky_tagger and input = sky_corpus
        and g = zero_rng and ns = None and r = r, OF disjI1[OF r]])
  have "\<exists>r. process_squad_file_addsent sky_tagger sky_corpus zero_rng = Inr r
          \<and> offsets_relocated sky_corpus (output_file r)
          \<and> answer_starts (output_file r) = [11]"
    by (rule exI[of _ r], rule conjI[OF r conjI[OF o v]])
  then show ?thesis using f i by (intro conjI)
qed

theorem offset_not_preserved_counterexample:
  "occurs_at ''This is a test.'' ''is'' 5
   \<and> map_sum id output_file (process_squad_file_addany (Some 1) test_corpus zero_rng)
     = Inr \<lparr>version = ''v2.0'',
            data = [\<lparr>title = ''Test'',
               paragraphs =
                 [\<lparr>par_context = ''This is a test. The weather was unusually warm that day.'',
                   qas = [\<lparr>question = ''What is this?'', qa_id = Some ''t1'',
                           is_impossible = Some False,
                           answers = [\<lparr>answer_text = ''is'', answer_start = 2\<rparr>]\<rparr>]\<rparr>]\<rparr>]\<rparr>"
  by code_simp

text \<open>
  Claim C8, as amended (no key words at all). When the chosen question has no token
  tagged noun, verb or adjective and no token outside punctuation either, sentence
  generation fails with the \<open>IndexError\<close> that \<open>random.choice\<close> raises on the empty list
  of key words; there is no guard before the draw. Nothing catches the error: the step
  for the paragraph returns it, and a run that reaches this paragraph, every paragraph
  before it processed, returns it and writes no output.
\<close>

theorem empty_key_words_raise_index_error:
  assumes "qas par \<noteq> []"
    and "doc = nlp (question (qas par ! (g 0 mod length (qas par))))"
    and "filter (\<lambda>t. pos_tag t = ''NOUN'' \<or> pos_tag t = ''VERB'' \<or> pos_tag t = ''ADJ'') doc = []"
    and "filter (\<lambda>t. pos_tag t \<noteq> ''PUNCT'') doc = []"
  shows "key_words_of doc = []
         \<and> random_choice (key_words_of doc) (rng_tail g) = Inl IndexError
         \<and> generate_adversarial_sentence nlp (qas par) h g = Inl IndexError
         \<and> addsent_step nlp par (h, g) = Inl IndexError
         \<and> (json_load input = (data_mem, h0)
              \<and> data data_mem
                  = arts_before @ \<lparr>title = t, paragraphs = pars_before @ par # pars_rest\<rparr> # arts_rest
              \<and> articles_loop (addsent_step nlp) arts_before (h0, g0) = Inr (arts_done, s)
              \<and> paragraphs_loop (addsent_step nlp) pars_before s = Inr (pars_done, (h, g))
            \<longrightarrow> process_squad_file_addsent nlp input g0 = Inl IndexError)"
proof -
  have k: "key_words_of doc = []"
    using assms(4) by (simp add: key_words_of_empty filter_empty_conv)
  have c1: "random_choice (qas par) g = Inr (qas par ! (g 0 mod length (qas par)), rng_tail g)"
    using assms(1) by (simp add: random_choice_def)
  have c2: "random_choice (key_words_of doc) (rng_tail g) = Inl IndexError"
    by (simp add: k random_choice_def)
  have c3: "generate_adversarial_sentence nlp (qas par) h g = Inl IndexError"
    unfolding generate_adversarial_sentence_def c1
    using c2 assms(2) by (simp add: Let_def)
  have c4: "addsent_step nlp par (h, g) = Inl IndexError"
    by (simp add: addsent_step_def c3)
  have c5: "json_load input = (data_mem, h0)
              \<and> data data_mem
                  = arts_before @ \<lparr>title = t, paragraphs = pars_before @ par # pars_rest\<rparr> # arts_rest
              \<and> articles_loop (addsent_step nlp) arts_before (h0, g0) = Inr (arts_done, s)
              \<and> paragraphs_loop (addsent_step nlp) pars_before s = Inr (pars_done, (h, g))
            \<longrightarrow> process_squad_file_addsent nlp input g0 = Inl IndexError"
  proof
    assume a: "json_load input = (data_mem, h0)
              \<and> data data_mem
                  = arts_before @ \<lparr>title = t, paragraphs = pars_before @ par # pars_rest\<rparr> # arts_rest
              \<and> articles_loop (addsent_step nlp) arts_before (h0, g0) = Inr (arts_done, s)
              \<and> paragraphs_loop (addsent_step nlp) pars_before s = Inr (pars_done, (h, g))"
    have p: "paragraphs_loop (addsent_step nlp) (pars_before @ par # pars_rest) s = Inl IndexError"
      by (rule paragraphs_loop_abort[OF conjunct2[OF conjunct2[OF conjunct2[OF a]]] c4])
    have q: "articles_loop (addsent_step nlp)
               (arts_before @ \<lparr>title = t, paragraphs = pars_before @ par # pars_rest\<rparr> # arts_rest)
               (h0, g0) = Inl IndexError"
      by (rule articles_loop_abort[OF conjunct1[OF conjunct2[OF conjunct2[OF a]]] p])
    show "process_squad_file_addsent nlp input g0 = Inl IndexError"
      unfolding process_squad_file_addsent_def process_squad_file_def
      by (simp add: conjunct1[OF a] conjunct1[OF conjunct2[OF a]] q)
  qed
  show ?thesis
    by (rule conjI[OF k conjI[OF c2 conjI[OF c3 conjI[OF c4 c5]]]])
qed

theorem empty_key_words_raise_index_error_witness:
  "key_words_of (sky_tagger ''???'') = []
   \<and> (\<exists>h g. paragraphs_loop (addsent_step sky_tagger)
               [\<lparr>par_context = ''The sky is blue.'',
                 qas = [\<lparr>question = ''What color is the sky?'', qa_id = Some ''q1'',
                         is_impossible = Some False, answers = [0]\<rparr>]\<rparr>]
               ([\<lparr>answer_text = ''blue'', answer_start = 11\<rparr>], zero_rng)
             = Inr ([\<lparr>par_context = ''The sky is blue. However, color is not related to blue.'',
                      qas = [\<lparr>question = ''What color is the sky?'', qa_id = Some ''q1'',
                              is_impossible = Some False, answers = [0]\<rparr>]\<rparr>], (h, g))
        \<and> random_choice (key_words_of (sky_tagger ''???'')) (rng_tail g) = Inl IndexError
        \<and> generate_adversarial_sentence sky_tagger
             [\<lparr>question = ''???'', qa_id = Some ''q2'', is_impossible = Some True,
               answers = []\<rparr>] h g = Inl IndexError
        \<and> addsent_step sky_tagger
             \<lparr>par_context = ''The sea is green.'',
              qas = [\<lparr>question = ''???'', qa_id = Some ''q2'', is_impossible = Some True,
                      answers = []\<rparr>]\<rparr> (h, g) = Inl IndexError)
   \<and> process_squad_file_addsent sky_tagger marks_corpus zero_rng = Inl IndexError"
proof -
  let ?p1 = "\<lparr>par_context = ''The sky is blue.'',
                 qas = [\<lparr>question = ''What color is the sky?'', qa_id = Some ''q1'',
                         is_impossible = Some False, answers = [0::addr]\<rparr>]\<rparr>"
  let ?p1' = "\<lparr>par_context = ''The sky is blue. However, color is not related to blue.'',
                 qas = [\<lparr>question = ''What color is the sky?'', qa_id = Some ''q1'',
                         is_impossible = Some False, answers = [0::addr]\<rparr>]\<rparr>"
  let ?par = "\<lparr>par_context = ''The sea is green.'',
              qas = [\<lparr>question = ''???'', qa_id = Some ''q2'', is_impossible = Some True,
                      answers = []::addr list\<rparr>]\<rparr>"
  let ?h0 = "[\<lparr>answer_text = ''blue'', answer_start = 11\<rparr>]"
  let ?mem = "\<lparr>version = ''v2.0'', data = [\<lparr>title = ''Sky'', paragraphs = [?p1, ?par]\<rparr>]\<rparr>"
  have l: "json_load marks_corpus = (?mem, ?h0)"
    by code_simp
  have d: "data ?mem = [] @ \<lparr>title = ''Sky'', paragraphs = [?p1] @ ?par # []\<rparr> # []"
    by simp
  have al: "articles_loop (addsent_step sky_tagger) [] (?h0, zero_rng) = Inr ([], (?h0, zero_rng))"
    by simp
  have "\<not> isl (paragraphs_loop (addsent_step sky_tagger) [?p1] (?h0, zero_rng))"
    by code_simp
  then obtain ms h g where pl0:
    "paragraphs_loop (addsent_step sky_tagger) [?p1] (?h0, zero_rng) = Inr (ms, (h, g))"
    by (cases "paragraphs_loop (addsent_step sky_tagger) [?p1] (?h0, zero_rng)") auto
  have "map_sum id fst (paragraphs_loop (addsent_step sky_tagger) [?p1] (?h0, zero_rng))
          = Inr [?p1']"
    by code_simp
  then have ms: "ms = [?p1']"
    unfolding pl0 by (simp only: map_sum.simps id_apply sum.inject fst_conv)
  have pl: "paragraphs_loop (addsent_step sky_tagger) [?p1] (?h0, zero_rng) = Inr ([?p1'], (h, g))"
    using pl0 unfolding ms .
  have a1: "qas ?par \<noteq> []" by simp
  have a2: "sky_tagger ''???'' = sky_tagger (question (qas ?par ! (g 0 mod length (qas ?par))))"
    by simp
  have a3: "filter (\<lambda>t. pos_tag t = ''NOUN'' \<or> pos_tag t = ''VERB'' \<or> pos_tag t = ''ADJ'')
              (sky_tagger ''???'') = []"
    by (simp add: sky_tagger_def)
  have a4: "filter (\<lambda>t. pos_tag t \<noteq> ''PUNCT'') (sky_tagger ''???'') = []"
    by (simp add: sky_tagger_def)
  note t = empty_key_words_raise_index_error[where par = ?par and g = g and h = h
      and doc = "sky_tagger ''???''" and nlp = sky_tagger and input = marks_corpus
      and data_mem = ?mem and ?h0.0 = ?h0 and arts_before = "[]" and t = "''Sky''"
      and pars_before = "[?p1]" and pars_rest = "[]" and arts_rest = "[]" and ?g0.0 = zero_rng
      and arts_done = "[]" and s = "(?h0, zero_rng)" and pars_done = "[?p1']",
      OF a1 a2 a3 a4]
  have k: "key_words_of (sky_tagger ''???'') = []"
    by (rule conjunct1[OF t])
  have c2: "random_choice (key_words_of (sky_tagger ''???'')) (rng_tail g) = Inl IndexError"
    by (rule conjunct1[OF conjunct2[OF t]])
  have c3: "generate_adversarial_sentence sky_tagger (qas ?par) h g = Inl IndexError"
    by (rule conjunct1[OF conjunct2[OF conjunct2[OF t]]])
  have c4: "addsent_step sky_tagger ?par (h, g) = Inl IndexError"
    by (rule conjunct1[OF conjunct2[OF conjunct2[OF conjunct2[OF t]]]])
  have c5: "process_squad_file_addsent sky_tagger marks_corpus zero_rng = Inl IndexError"
    by (rule mp[OF conjunct2[OF conjunct2[OF conjunct2[OF conjunct2[OF t]]]]
          conjI[OF l conjI[OF d conjI[OF al pl]]]])
  have c3': "generate_adversarial_sentence sky_tagger
             [\<lparr>question = ''???'', qa_id = Some ''q2'', is_impossible = Some True,
               answers = []\<rparr>] h g = Inl IndexError"
    using c3 by (simp only: squad_paragraph.simps)
  have e: "\<exists>h g. paragraphs_loop (addsent_step sky_tagger) [?p1] (?h0, zero_rng)
             = Inr ([?p1'], (h, g))
        \<and> random_choice (key_words_of (sky_tagger ''???'')) (rng_tail g) = Inl IndexError
        \<and> generate_adversarial_sentence sky_tagger
             [\<lparr>question = ''???'', qa_id = Some ''q2'', is_impossible = Some True,
               answers = []\<rparr>] h g = Inl IndexError
        \<and> addsent_step sky_tagger ?par (h, g) = Inl IndexError"
    by (rule exI[of _ h], rule exI[of _ g], rule conjI[OF pl conjI[OF c2 conjI[OF c3' c4]]])
  show ?thesis
    by (rule conjI[OF k conjI[OF e c5]])
qed

theorem empty_key_words_counterexample:
  "filter (\<lambda>t. pos_tag t = ''NOUN'' \<or> pos_tag t = ''VERB'' \<or> pos_tag t = ''ADJ'')
     (punct_tagger ''???'') = []
   \<and> filter (\<lambda>t. pos_tag t \<noteq> ''PUNCT'') (punct_tagger ''???'') = []
   \<and> generate_adversarial_sentence punct_tagger
       [\<lparr>question = ''???'', qa_id = None, is_impossible = None, answers = []\<rparr>] [] zero_rng
     = Inl IndexError
   \<and> process_squad_file_addsent punct_tagger marks_corpus zero_rng = Inl IndexError
   \<and> process_squad_file_addsent sky_tagger marks_corpus zero_rng = Inl IndexError"
proof -
  have a: "filter (\<lambda>t. pos_tag t = ''NOUN'' \<or> pos_tag t = ''VERB'' \<or> pos_tag t = ''ADJ'')
     (punct_tagger ''???'') = []"
    by (simp add: punct_tagger_def)
  have b: "filter (\<lambda>t. pos_tag t \<noteq> ''PUNCT'') (punct_tagger ''???'') = []"
    by (simp add: punct_tagger_def)
  have c: "generate_adversarial_sentence punct_tagger
       [\<lparr>question = ''???'', qa_id = None, is_impossible = None, answers = []\<rparr>] [] zero_rng
     = Inl IndexError"
    by (simp add: generate_adversarial_sentence_def random_choice_def key_words_of_def
        punct_tagger_def)
  have d: "process_squad_file_addsent punct_tagger marks_corpus zero_rng = Inl IndexError"
    by code_simp
  have e: "process_squad_file_addsent sky_tagger marks_corpus zero_rng = Inl IndexError"
    by code_simp
  show ?thesis
    by (rule conjI[OF a conjI[OF b conjI[OF c conjI[OF d e]]]])
qed

text \<open>
  Claim C9 (evaluation rows). \<open>evaluate_attack\<close> returns, in processing order, exactly
  one row for every question-answer pair that has a non-empty answers list and whose
  first answer text occurs in the first 512 characters of its paragraph's context; every
  other pair contributes nothing and raises nothing. In each row \<open>exact_match\<close> is the
  equality of the lower-cased prediction and the lower-cased ground truth.
\<close>

theorem evaluate_attack_rows:
  "evaluate_attack E data_list attack_name
     = map (row_of E attack_name)
         (filter (\<lambda>cq. scored (fst cq) (snd cq)) (qa_occurrences data_list))
   \<and> length (evaluate_attack E data_list attack_name)
     = length (filter (\<lambda>cq. scored (fst cq) (snd cq)) (qa_occurrences data_list))
   \<and> (\<forall>row \<in> set (evaluate_attack E data_list attack_name).
         exact_match row = (lower E (predicted_answer row) = lower E (ground_truth row)))"
proof -
  have e: "evaluate_attack E data_list attack_name
     = map (row_of E attack_name)
         (filter (\<lambda>cq. scored (fst cq) (snd cq)) (qa_occurrences data_list))"
    by (simp add: evaluate_attack_def evaluate_articles_eq)
  have "\<forall>row \<in> set (map (row_of E attack_name)
         (filter (\<lambda>cq. scored (fst cq) (snd cq)) (qa_occurrences data_list))).
         exact_match row = (lower E (predicted_answer row) = lower E (ground_truth row))"
    by (auto simp: row_of_def)
  then show ?thesis unfolding e by simp
qed

theorem evaluate_attack_rows_witness:
  "evaluate_attack first_word_collaborators (data rome_corpus) ''AddAny''
     = [\<lparr>attack = ''AddAny'', row_question = ''What is the capital of France?'',
         row_context = ''Paris is the capital of France.'', ground_truth = ''Paris'',
         predicted_answer = ''Paris'', exact_match = True, f1_score = 0, bleu_score = 0,
         grammatical_errors = 0\<rparr>]
   \<and> map (\<lambda>cq. scored (fst cq) (snd cq)) (qa_occurrences (data rome_corpus)) = [True, False]"
proof -
  have s: "map (\<lambda>cq. scored (fst cq) (snd cq)) (qa_occurrences (data rome_corpus)) = [True, False]"
    by code_simp
  have "map (row_of first_word_collaborators ''AddAny'')
         (filter (\<lambda>cq. scored (fst cq) (snd cq)) (qa_occurrences (data rome_corpus)))
     = [\<lparr>attack = ''AddAny'', row_question = ''What is the capital of France?'',
         row_context = ''Paris is the capital of France.'', ground_truth = ''Paris'',
         predicted_answer = ''Paris'', exact_match = True, f1_score = 0, bleu_score = 0,
         grammatical_errors = 0\<rparr>]"
    by code_simp
  then show ?thesis
    using conjunct1[OF evaluate_attack_rows[of first_word_collaborators "data rome_corpus" "''AddAny''"]] s
    by simp
qed

text \<open>
  Claim C10 (question-answer pairs preserved). For every input corpus in which each
  non-empty first answer text occurs in its paragraph's context, the output of either
  pipeline has, paragraph by paragraph, exactly the input's question-answer pairs, each
  equal to its input pair on question, id, is_impossible and the answers, except possibly
  for \<open>answers[0].answer_start\<close>; AddAny does produce an output, and so does AddSent
  when every paragraph has a pair and every question a key word.
\<close>

theorem qapairs_preserved_by_generation:
  assumes "answers_in_context input"
  shows "(\<forall>r. process_squad_file_addsent nlp input g = Inr r \<longrightarrow>
              qapairs_preserved input (output_file r))
         \<and> (addsent_ready nlp input \<longrightarrow>
              (\<exists>r. process_squad_file_addsent nlp input g = Inr r))
         \<and> (\<exists>r. process_squad_file_addany ns input g = Inr r \<and>
              qapairs_preserved input (output_file r))"
proof (intro conjI impI)
  show "\<forall>r. process_squad_file_addsent nlp input g = Inr r \<longrightarrow>
              qapairs_preserved input (output_file r)"
    using addsent_output art_rel_preserved by blast
next
  assume "addsent_ready nlp input"
  then show "\<exists>r. process_squad_file_addsent nlp input g = Inr r"
    using addsent_total[OF assms] by blast
next
  obtain r where "process_squad_file_addany ns input g = Inr r"
    and "list_all2 art_rel (data input) (data (output_file r))"
    using addany_total[OF assms] by blast
  then show "\<exists>r. process_squad_file_addany ns input g = Inr r \<and>
              qapairs_preserved input (output_file r)"
    using art_rel_preserved by blast
qed

theorem qapairs_preserved_by_generation_witness:
  "answers_in_context sky_corpus \<and> addsent_ready noun_tagger sky_corpus
   \<and> (\<exists>r. process_squad_file_addsent noun_tagger sky_corpus zero_rng = Inr r
          \<and> qapairs_preserved sky_corpus (output_file r))
   \<and> (\<exists>r. process_squad_file_addany (Some 2) sky_corpus zero_rng = Inr r
          \<and> qapairs_preserved sky_corpus (output_file r))"
proof -
  have h: "answers_in_context sky_corpus" by code_simp
  have k: "addsent_ready noun_tagger sky_corpus" by code_simp
  note t = qapairs_preserved_by_generation[OF h, of noun_tagger zero_rng "Some 2"]
  from mp[OF conjunct1[OF conjunct2[OF t]] k]
  obtain r where r: "process_squad_file_addsent noun_tagger sky_corpus zero_rng = Inr r"
    by blast
  have a: "qapairs_preserved sky_corpus (output_file r)" using conjunct1[OF t] r by simp
  have "\<exists>r. process_squad_file_addsent noun_tagger sky_corpus zero_rng = Inr r
          \<and> qapairs_preserved sky_corpus (output_file r)"
    by (rule exI[of _ r], rule conjI[OF r a])
  then show ?thesis using h k conjunct2[OF conjunct2[OF t]] by (intro conjI)
qed

end
